theory Spec2Isabelle
  imports Complex_Main "HOL-Library.Multiset" "HOL-Library.Log_Nat"
begin

section \<open>Errors and numbers\<close>

text \<open>
  The exceptions that can leave the code under study, as values.
  \<^item> \<open>DimensionMismatch\<close>: the \<open>ValueError\<close> that \<open>scipy.spatial.distance.hamming\<close>
    raises for arrays of different shape;
  \<^item> \<open>IndexError\<close>: an index outside an array;
  \<^item> \<open>EmptyPopulation\<close>: the \<open>ValueError\<close> of \<open>np.random.choice\<close> on an empty
    population;
  \<^item> \<open>InvalidImage\<close>: the image library refuses the image;
  \<^item> \<open>RecursionError\<close>: \<open>_flatten\<close> does not come back.
\<close>

datatype error = DimensionMismatch | IndexError | EmptyPopulation | InvalidImage | RecursionError

text \<open>
  A Python float is a double: \<open>NaN\<close> (the mean of an empty array) or a rational with a
  significand of 53 bits. Every operation rounds its exact result to the nearest double,
  ties to the even significand; \<open>fl\<close> is that rounding, for the values that occur here,
  which are not negative and far from overflow and underflow. \<open>exponent x\<close> is the
  integer \<open>e\<close> with \<open>2 ^ e \<le> x < 2 ^ (e + 1)\<close>. Every comparison with \<open>NaN\<close> is
  false.
\<close>

definition round_even :: "rat \<Rightarrow> int" where
  "round_even y =
     (let f = \<lfloor>y\<rfloor>; r = y - of_int f
      in if r < 1 / 2 then f else if 1 / 2 < r then f + 1 else if even f then f else f + 1)"

definition exponent :: "rat \<Rightarrow> int" where
  "exponent x =
     (let (p, q) = quotient_of x; e = bitlen p - bitlen q
      in if power_int 2 e \<le> x then e else e - 1)"

definition fl :: "rat \<Rightarrow> rat" where
  "fl x =
     (if x \<le> 0 then 0
      else let ulp = power_int 2 (exponent x - 52) in of_int (round_even (x / ulp)) * ulp)"

datatype number = NaN | Fin rat

fun num_times :: "number \<Rightarrow> nat \<Rightarrow> number" where
  "num_times NaN n = NaN"
| "num_times (Fin x) n = Fin (fl (x * of_nat n))"

fun num_less :: "number \<Rightarrow> nat \<Rightarrow> bool" where
  "num_less NaN n = False"
| "num_less (Fin x) n = (x < of_nat n)"

type_synonym fingerprint = "nat list"

section \<open>The difference hash (hashes.py)\<close>

text \<open>
  \<open>cv2.cvtColor\<close> and \<open>cv2.resize\<close> belong to the image library; they are parameters
  of the model. A grayscale grid is a list of rows. \<open>cv2.resize\<close> takes the target size
  as (width, height).
\<close>

definition diff_grid :: "nat list list \<Rightarrow> bool list list" where
  "diff_grid resized = map (\<lambda>row. map (\<lambda>(r, l). r > l) (zip (tl row) (butlast row))) resized"

definition dhash ::
  "('img \<Rightarrow> error + 'gray) \<Rightarrow> ('gray \<Rightarrow> nat \<times> nat \<Rightarrow> error + nat list list) \<Rightarrow>
   'img \<Rightarrow> nat \<Rightarrow> error + fingerprint" where
  "dhash cvtColor resize img hash_size =
     (case cvtColor img of
        Inl e \<Rightarrow> Inl e
      | Inr gray \<Rightarrow>
          (case resize gray (hash_size + 1, hash_size) of
             Inl e \<Rightarrow> Inl e
           | Inr resized \<Rightarrow>
               (let diff = diff_grid resized
                in Inr (map (\<lambda>i. if i then 1 else 0) (concat diff)))))"

section \<open>The Hamming metric (scipy.spatial.distance.hamming)\<close>

text \<open>
  Modelled from the spec: \<open>scipy.spatial.distance.hamming\<close> is imported by
  deduplication.py and is not part of the sources. It fails when the two arrays differ
  in length and returns the fraction of positions at which they differ otherwise, the
  count divided by the length in floating point; on two empty arrays that fraction is the
  mean of nothing, \<open>NaN\<close>.
\<close>

definition differing :: "fingerprint \<Rightarrow> fingerprint \<Rightarrow> nat" where
  "differing u v = length (filter (\<lambda>(a, b). a \<noteq> b) (zip u v))"

definition hamming :: "fingerprint \<Rightarrow> fingerprint \<Rightarrow> error + number" where
  "hamming u v =
     (if length u \<noteq> length v then Inl DimensionMismatch
      else if u = [] then Inr NaN
      else Inr (Fin (fl (of_nat (differing u v) / of_nat (length u)))))"

text \<open>The value each clusterer compares with 10: \<open>hamming(a, b) * self._d\<close> in the
  approximate clusterer, \<open>hamming(a, b) * 64\<close> in the exact one.\<close>

definition lsh_distance :: "nat \<Rightarrow> fingerprint \<Rightarrow> fingerprint \<Rightarrow> error + number" where
  "lsh_distance d u v = (case hamming u v of Inl e \<Rightarrow> Inl e | Inr x \<Rightarrow> Inr (num_times x d))"

definition bf_distance :: "fingerprint \<Rightarrow> fingerprint \<Rightarrow> error + number" where
  "bf_distance u v = (case hamming u v of Inl e \<Rightarrow> Inl e | Inr x \<Rightarrow> Inr (num_times x 64))"

section \<open>Hashed images and the tree of duplicates\<close>

text \<open>
  A \<open>HashedImage\<close> is a tuple whose \<open>duplicates\<close> list is mutated in place and which is
  compared by identity (\<open>is\<close>). The model keeps the records in a heap, a list in order of
  creation; the address of a record, its position, is its identity, and a \<open>duplicates\<close>
  list holds addresses.
\<close>

record 'a HashedImage =
  data :: 'a
  hash :: fingerprint
  duplicates :: "nat list"

type_synonym 'a heap = "'a HashedImage list"

definition append_duplicate :: "'a heap \<Rightarrow> nat \<Rightarrow> nat \<Rightarrow> 'a heap" where
  "append_duplicate h p c = h[p := (h ! p)\<lparr>duplicates := duplicates (h ! p) @ [c]\<rparr>]"

text \<open>
  \<open>_flatten\<close> recurses along the \<open>duplicates\<close> lists, and the interpreter allows
  nested calls up to its recursion limit only. The model carries the depth still
  allowed as fuel and raises \<open>RecursionError\<close> when it is used up; \<open>deduplicate\<close> takes
  the depth that the interpreter allows at its call of \<open>_flatten\<close> as the parameter
  \<open>recursion_limit\<close>.
\<close>

fun flatten :: "nat \<Rightarrow> 'a heap \<Rightarrow> nat \<Rightarrow> error + 'a list"
  and flatten_children :: "nat \<Rightarrow> 'a heap \<Rightarrow> nat list \<Rightarrow> 'a list \<Rightarrow> error + 'a list" where
  "flatten 0 h img = Inl RecursionError"
| "flatten (Suc fuel) h img = flatten_children fuel h (duplicates (h ! img)) [data (h ! img)]"
| "flatten_children fuel h [] result = Inr result"
| "flatten_children fuel h (child # children) result =
     (case flatten fuel h child of
        Inl e \<Rightarrow> Inl e
      | Inr r \<Rightarrow> flatten_children fuel h children (result @ r))"

text \<open>\<open>[self._flatten(img) for img in result]\<close>\<close>

fun flatten_all :: "nat \<Rightarrow> 'a heap \<Rightarrow> nat list \<Rightarrow> error + 'a list list" where
  "flatten_all fuel h [] = Inr []"
| "flatten_all fuel h (img # imgs) =
     (case flatten fuel h img of
        Inl e \<Rightarrow> Inl e
      | Inr g \<Rightarrow> (case flatten_all fuel h imgs of Inl e \<Rightarrow> Inl e | Inr gs \<Rightarrow> Inr (g # gs)))"

section \<open>Random bands (LSHDeduplicator.__init__)\<close>

definition choice :: "(nat \<Rightarrow> nat) \<Rightarrow> nat \<Rightarrow> 'a list \<Rightarrow> nat \<Rightarrow> error + 'a list" where
  "choice rng pos a k =
     (if a = [] \<and> k > 0 then Inl EmptyPopulation
      else Inr (map (\<lambda>i. a ! (rng (pos + i) mod length a)) [0..<k]))"

fun make_projections :: "(nat \<Rightarrow> nat) \<Rightarrow> nat \<Rightarrow> nat \<Rightarrow> nat \<Rightarrow> nat \<Rightarrow> error + nat list list" where
  "make_projections rng pos d k 0 = Inr []"
| "make_projections rng pos d k (Suc l) =
     (case choice rng pos [0..<d] k of
        Inl e \<Rightarrow> Inl e
      | Inr g \<Rightarrow>
          (case make_projections rng (pos + k) d k l of
             Inl e \<Rightarrow> Inl e
           | Inr gs \<Rightarrow> Inr (g # gs)))"

record 'a LSHDeduplicator =
  hash_func :: "'a \<Rightarrow> error + fingerprint"
  lsh_k :: nat
  lsh_l :: nat
  lsh_d :: nat
  projections :: "nat list list"

definition LSHDeduplicator_init ::
  "(nat \<Rightarrow> nat) \<Rightarrow> ('a \<Rightarrow> error + fingerprint) \<Rightarrow> nat \<Rightarrow> nat \<Rightarrow> nat \<Rightarrow> error + 'a LSHDeduplicator" where
  "LSHDeduplicator_init rng hf k l d =
     (case make_projections rng 0 d k l of
        Inl e \<Rightarrow> Inl e
      | Inr ps \<Rightarrow> Inr \<lparr>hash_func = hf, lsh_k = k, lsh_l = l, lsh_d = d, projections = ps\<rparr>)"

section \<open>State of a deduplicate call\<close>

record 'a dedup_state =
  heap :: "'a heap"
  result :: "nat list"
  duplicate_count :: nat

record 'a lsh_state = "'a dedup_state" +
  hash_table :: "string \<rightharpoonup> nat list"

record 'a bf_state = "'a dedup_state" +
  matched :: "bool list"
  queue :: "nat list"

section \<open>The approximate clusterer (LSHDeduplicator.deduplicate)\<close>

fun str_nat :: "nat \<Rightarrow> string" where
  "str_nat n = (if n < 10 then [''0123456789'' ! n] else str_nat (n div 10) @ [''0123456789'' ! (n mod 10)])"

declare str_nat.simps [simp del]

definition fancy_index :: "fingerprint \<Rightarrow> nat list \<Rightarrow> error + nat list" where
  "fancy_index a g = (if list_all (\<lambda>i. i < length a) g then Inr (map (\<lambda>i. a ! i) g) else Inl IndexError)"

text \<open>
  \<open>"".join(hashed_img.hash[g].astype("str"))\<close>. The bands drawn from an empty range,
  \<open>d = 0\<close>, are arrays of floats, and numpy refuses an array of floats as an index.
\<close>

definition band_key :: "nat \<Rightarrow> fingerprint \<Rightarrow> nat list \<Rightarrow> error + string" where
  "band_key d a g =
     (if d = 0 then Inl IndexError
      else case fancy_index a g of Inl e \<Rightarrow> Inl e | Inr bits \<Rightarrow> Inr (concat (map str_nat bits)))"

fun lsh_scan :: "nat \<Rightarrow> nat \<Rightarrow> nat list \<Rightarrow> bool \<times> 'a lsh_state \<Rightarrow> error + bool \<times> 'a lsh_state" where
  "lsh_scan d hashed_img [] (unique, st) = Inr (unique, st)"
| "lsh_scan d hashed_img (potential_duplicate # l) (unique, st) =
     (if \<not> unique then Inr (unique, st)
      else if hashed_img = potential_duplicate then lsh_scan d hashed_img l (unique, st)
      else
        (case lsh_distance d (hash (heap st ! hashed_img)) (hash (heap st ! potential_duplicate)) of
           Inl e \<Rightarrow> Inl e
         | Inr distance \<Rightarrow>
             if num_less distance 10
             then lsh_scan d hashed_img l
                    (False, st\<lparr>heap := append_duplicate (heap st) potential_duplicate hashed_img,
                                duplicate_count := duplicate_count st + 1\<rparr>)
             else lsh_scan d hashed_img l (unique, st)))"

fun lsh_bands :: "nat \<Rightarrow> nat \<Rightarrow> nat list list \<Rightarrow> bool \<times> 'a lsh_state \<Rightarrow> error + bool \<times> 'a lsh_state" where
  "lsh_bands d hashed_img [] (unique, st) = Inr (unique, st)"
| "lsh_bands d hashed_img (g # gs) (unique, st) =
     (case band_key d (hash (heap st ! hashed_img)) g of
        Inl e \<Rightarrow> Inl e
      | Inr g_x \<Rightarrow>
          (let l = (case hash_table st g_x of None \<Rightarrow> [] | Some b \<Rightarrow> b)
           in case lsh_scan d hashed_img l (unique, st) of
                Inl e \<Rightarrow> Inl e
              | Inr (unique', st') \<Rightarrow>
                  lsh_bands d hashed_img gs
                    (unique', st'\<lparr>hash_table := (hash_table st')(g_x \<mapsto> l @ [hashed_img])\<rparr>)))"

fun lsh_images :: "'a LSHDeduplicator \<Rightarrow> 'a list \<Rightarrow> 'a lsh_state \<Rightarrow> error + 'a lsh_state" where
  "lsh_images self [] st = Inr st"
| "lsh_images self (img # imgs) st =
     (case hash_func self img of
        Inl e \<Rightarrow> Inl e
      | Inr fp \<Rightarrow>
          (let hashed_img = length (heap st);
               st1 = st\<lparr>heap := heap st @ [\<lparr>data = img, hash = fp, duplicates = []\<rparr>]\<rparr>
           in case lsh_bands (lsh_d self) hashed_img (projections self) (True, st1) of
                Inl e \<Rightarrow> Inl e
              | Inr (unique, st2) \<Rightarrow>
                  lsh_images self imgs
                    (if unique then st2\<lparr>result := result st2 @ [hashed_img]\<rparr> else st2)))"

definition lsh_deduplicate :: "nat \<Rightarrow> 'a LSHDeduplicator \<Rightarrow> 'a list \<Rightarrow> error + 'a list list" where
  "lsh_deduplicate recursion_limit self imgs =
     (case lsh_images self imgs \<lparr>heap = [], result = [], duplicate_count = 0, hash_table = Map.empty\<rparr> of
        Inl e \<Rightarrow> Inl e
      | Inr st \<Rightarrow> flatten_all recursion_limit (heap st) (result st))"

section \<open>The exact clusterer (BruteForceDeduplicator.deduplicate)\<close>

fun hash_all :: "('a \<Rightarrow> error + fingerprint) \<Rightarrow> 'a list \<Rightarrow> 'a heap \<Rightarrow> error + 'a heap" where
  "hash_all hf [] hashed_images = Inr hashed_images"
| "hash_all hf (img # imgs) hashed_images =
     (case hf img of
        Inl e \<Rightarrow> Inl e
      | Inr fp \<Rightarrow> hash_all hf imgs (hashed_images @ [\<lparr>data = img, hash = fp, duplicates = []\<rparr>]))"

fun bf_scan :: "nat \<Rightarrow> nat list \<Rightarrow> 'a bf_state \<Rightarrow> error + 'a bf_state" where
  "bf_scan img [] st = Inr st"
| "bf_scan img (i # is) st =
     (if img = i then bf_scan img is st
      else if length (matched st) \<le> i then Inl IndexError
      else if matched st ! i then bf_scan img is st
      else
        (case bf_distance (hash (heap st ! img)) (hash (heap st ! i)) of
           Inl e \<Rightarrow> Inl e
         | Inr distance \<Rightarrow>
             if num_less distance 10
             then bf_scan img is
                    (st\<lparr>heap := append_duplicate (heap st) img i,
                        queue := queue st @ [i],
                        matched := (matched st)[i := True],
                        duplicate_count := duplicate_count st + 1\<rparr>)
             else bf_scan img is st))"

definition unmatched :: "bool list \<Rightarrow> nat" where
  "unmatched m = length (filter Not m)"

lemma unmatched_update:
  "i < length m \<Longrightarrow> \<not> m ! i \<Longrightarrow> Suc (unmatched (m[i := True])) = unmatched m"
proof (induction m arbitrary: i)
  case Nil
  then show ?case by simp
next
  case (Cons b m)
  then show ?case by (cases i) (auto simp: unmatched_def)
qed

lemma bf_scan_measure:
  "bf_scan img is st = Inr st' \<Longrightarrow>
     unmatched (matched st') + length (queue st') = unmatched (matched st) + length (queue st)"
proof (induction "is" arbitrary: st)
  case Nil
  then show ?case by simp
next
  case (Cons i "is")
  show ?case using Cons.prems Cons.IH unmatched_update [of i "matched st"]
    by (auto split: if_splits sum.splits)
qed

function bf_drain :: "'a bf_state \<Rightarrow> error + 'a bf_state" where
  "bf_drain st =
     (case queue st of
        [] \<Rightarrow> Inr st
      | img # q \<Rightarrow>
          (case bf_scan img [0..<length (heap st)] (st\<lparr>queue := q\<rparr>) of
             Inl e \<Rightarrow> Inl e
           | Inr st' \<Rightarrow> bf_drain st'))"
  by pat_completeness auto
termination
  apply (relation "measure (\<lambda>st. unmatched (matched st) + length (queue st))")
   apply simp
  apply (drule bf_scan_measure)
  apply simp
  done

declare bf_drain.simps [simp del]

lemma bf_scan_unmatched:
  "bf_scan img is st = Inr st' \<Longrightarrow> unmatched (matched st') \<le> unmatched (matched st)"
proof (induction "is" arbitrary: st)
  case Nil
  then show ?case by simp
next
  case (Cons i "is")
  show ?case using Cons.prems Cons.IH unmatched_update [of i "matched st"]
    by (fastforce split: if_splits sum.splits)
qed

lemma bf_drain_unmatched:
  "bf_drain st = Inr st' \<Longrightarrow> unmatched (matched st') \<le> unmatched (matched st)"
proof (induction st rule: bf_drain.induct)
  case (1 st)
  show ?case
  proof (cases "queue st")
    case Nil
    with "1.prems" show ?thesis by (simp add: bf_drain.simps [of st])
  next
    case (Cons img q)
    with "1.prems" obtain st1 where s1: "bf_scan img [0..<length (heap st)] (st\<lparr>queue := q\<rparr>) = Inr st1"
      and d: "bf_drain st1 = Inr st'"
      by (auto simp: bf_drain.simps [of st] split: sum.splits)
    from "1.IH" [OF Cons s1 d] bf_scan_unmatched [OF s1] show ?thesis by simp
  qed
qed

definition first_unmatched :: "bool list \<Rightarrow> nat" where
  "first_unmatched m = length (takeWhile (\<lambda>b. b) m)"

lemma first_unmatched:
  "\<not> list_all (\<lambda>b. b) m \<Longrightarrow> first_unmatched m < length m \<and> \<not> m ! first_unmatched m"
  by (induction m) (auto simp: first_unmatched_def)

function bf_while :: "'a bf_state \<Rightarrow> error + 'a bf_state" where
  "bf_while st =
     (if list_all (\<lambda>b. b) (matched st) then Inr st
      else
        (let starting_point = first_unmatched (matched st);
             st1 = st\<lparr>queue := queue st @ [starting_point],
                      result := result st @ [starting_point],
                      matched := (matched st)[starting_point := True]\<rparr>
         in case bf_drain st1 of
              Inl e \<Rightarrow> Inl e
            | Inr st2 \<Rightarrow> bf_while st2))"
  by pat_completeness auto
termination
proof (relation "measure (\<lambda>st. unmatched (matched st))")
  show "wf (measure (\<lambda>st. unmatched (matched st)))" by simp
next
  fix st :: "'a bf_state" and sp st1 st2
  assume a: "\<not> list_all (\<lambda>b. b) (matched st)"
    and sp: "sp = first_unmatched (matched st)"
    and st1: "st1 = st\<lparr>queue := queue st @ [sp], result := result st @ [sp], matched := (matched st)[sp := True]\<rparr>"
    and d: "bf_drain st1 = Inr st2"
  from first_unmatched [OF a] sp have "Suc (unmatched ((matched st)[sp := True])) = unmatched (matched st)"
    by (intro unmatched_update) auto
  with bf_drain_unmatched [OF d] st1 show "(st2, st) \<in> measure (\<lambda>st. unmatched (matched st))"
    by simp
qed

declare bf_while.simps [simp del]

definition bf_deduplicate ::
  "nat \<Rightarrow> ('a \<Rightarrow> error + fingerprint) \<Rightarrow> 'a list \<Rightarrow> error + 'a list list" where
  "bf_deduplicate recursion_limit hf imgs =
     (case hash_all hf imgs [] of
        Inl e \<Rightarrow> Inl e
      | Inr hashed_images \<Rightarrow>
          (case bf_while \<lparr>heap = hashed_images, result = [], duplicate_count = 0,
                          matched = replicate (length imgs) False, queue = []\<rparr> of
             Inl e \<Rightarrow> Inl e
           | Inr st \<Rightarrow> flatten_all recursion_limit (heap st) (result st)))"

section \<open>Doubles that are exact\<close>

lemma round_even_of_int: "round_even (of_int z) = z"
  by (simp add: round_even_def)

lemma exponent_le:
  assumes "0 < x"
  shows "power_int 2 (exponent x) \<le> x"
proof -
  obtain p q where pq: "quotient_of x = (p, q)" by (cases "quotient_of x")
  from quotient_of_denom_pos [OF pq] have q: "0 < q" .
  from quotient_of_div [OF pq] have x: "x = of_int p / of_int q" .
  from assms x q have p: "0 < p" by (simp add: zero_less_divide_iff)
  let ?e = "bitlen p - bitlen q"
  show ?thesis
  proof (cases "power_int 2 ?e \<le> x")
    case True
    with pq show ?thesis by (simp add: exponent_def)
  next
    case False
    with pq have e: "exponent x = ?e - 1" by (simp add: exponent_def)
    from bitlen_bounds [OF p] have "2 ^ nat (bitlen p - 1) \<le> p" by simp
    then have lp: "(2::rat) ^ nat (bitlen p - 1) \<le> of_int p"
      by (metis of_int_le_iff of_int_numeral of_int_power)
    from bitlen_bounds [OF q] have "q < 2 ^ nat (bitlen q)" by simp
    then have "q \<le> 2 ^ nat (bitlen q)" by simp
    then have uq: "of_int q \<le> (2::rat) ^ nat (bitlen q)"
      by (metis of_int_le_iff of_int_numeral of_int_power)
    from p have bp: "1 \<le> bitlen p" by (auto simp: bitlen_alt_def)
    define a b where "a = nat (bitlen p - 1)" and "b = nat (bitlen q)"
    from bp bitlen_nonneg [of q] have ab: "int a = bitlen p - 1" "int b = bitlen q"
      by (simp_all add: a_def b_def)
    then have "?e - 1 = int a - int b" by simp
    then have "power_int (2::rat) (?e - 1) = power_int 2 (int a - int b)" by simp
    also have "\<dots> = power_int 2 (int a) / power_int 2 (int b)"
      by (rule power_int_diff) simp
    also have "\<dots> = (2::rat) ^ a / 2 ^ b"
      by (simp only: power_int_of_nat)
    also have "\<dots> \<le> of_int p / 2 ^ b"
      using lp unfolding a_def by (simp add: divide_right_mono)
    also have "\<dots> \<le> of_int p / of_int q"
      using uq q p unfolding b_def by (simp add: divide_left_mono)
    finally show ?thesis using e x by simp
  qed
qed

lemma fl_exact:
  assumes z: "0 < z" "z < 2 ^ 53"
  shows "fl (of_int z * power_int 2 j) = of_int z * power_int 2 j"
proof -
  let ?x = "of_int z * power_int 2 j :: rat"
  let ?e = "exponent ?x"
  from z have pos: "0 < ?x" by simp
  from z(2) have "(of_int z :: rat) < 2 ^ 53"
    by (metis of_int_less_iff of_int_numeral of_int_power)
  then have "?x < 2 ^ 53 * power_int 2 j" by simp
  also have "\<dots> = power_int 2 (53 + j)" by (simp add: power_int_add)
  finally have up: "?x < power_int 2 (53 + j)" .
  have e: "?e < 53 + j"
  proof (rule ccontr)
    assume "\<not> ?e < 53 + j"
    then have "power_int (2::rat) (53 + j) \<le> power_int 2 ?e"
      by (intro power_int_increasing) simp_all
    with exponent_le [OF pos] up show False by simp
  qed
  define k where "k = nat (j + 52 - ?e)"
  from e have k: "int k = j + 52 - ?e" by (simp add: k_def)
  have "?x / power_int 2 (?e - 52) = of_int z * power_int 2 (j - (?e - 52))"
    by (simp add: power_int_diff)
  also have "j - (?e - 52) = int k" using k by simp
  finally have d: "?x / power_int 2 (?e - 52) = of_int (z * 2 ^ k)" by simp
  have "fl ?x = of_int (z * 2 ^ k) * power_int 2 (?e - 52)"
    using pos by (simp only: fl_def Let_def d round_even_of_int) simp
  also have "\<dots> = of_int z * (power_int 2 (int k) * power_int 2 (?e - 52))" by simp
  also have "power_int 2 (int k) * power_int (2::rat) (?e - 52) = power_int 2 (int k + (?e - 52))"
    by (simp add: power_int_add)
  also have "int k + (?e - 52) = j" using k by simp
  finally show ?thesis .
qed

lemma fl_nat: "c < 2 ^ 53 \<Longrightarrow> fl (of_nat c) = of_nat c"
proof (cases "c = 0")
  case True
  then show ?thesis by (simp add: fl_def)
next
  case False
  assume "c < 2 ^ 53"
  then have "int c < 2 ^ 53" by (metis of_nat_less_iff of_nat_numeral of_nat_power)
  with False fl_exact [of "int c" 0] show ?thesis by simp
qed

lemma fl_over_64: "c \<le> 64 \<Longrightarrow> fl (of_nat c / 64) = of_nat c / 64"
proof (cases "c = 0")
  case True
  then show ?thesis by (simp add: fl_def)
next
  case False
  assume "c \<le> 64"
  then have "int c < 2 ^ 53" by simp
  with False fl_exact [of "int c" "- 6"] show ?thesis by (simp add: power_int_minus_divide)
qed

section \<open>The records that flattening visits\<close>

text \<open>
  \<open>nodes\<close> follows \<open>flatten\<close> and collects the addresses of the records instead of
  their images.
\<close>

fun nodes :: "nat \<Rightarrow> 'a heap \<Rightarrow> nat \<Rightarrow> nat list option"
  and nodes_children :: "nat \<Rightarrow> 'a heap \<Rightarrow> nat list \<Rightarrow> nat list option" where
  "nodes 0 h img = None"
| "nodes (Suc fuel) h img =
     (case nodes_children fuel h (duplicates (h ! img)) of
        None \<Rightarrow> None
      | Some ys \<Rightarrow> Some (img # ys))"
| "nodes_children fuel h [] = Some []"
| "nodes_children fuel h (child # children) =
     (case nodes fuel h child of
        None \<Rightarrow> None
      | Some xs \<Rightarrow>
          (case nodes_children fuel h children of
             None \<Rightarrow> None
           | Some ys \<Rightarrow> Some (xs @ ys)))"

fun nodes_all :: "nat \<Rightarrow> 'a heap \<Rightarrow> nat list \<Rightarrow> nat list list option" where
  "nodes_all fuel h [] = Some []"
| "nodes_all fuel h (img # imgs) =
     (case nodes fuel h img of
        None \<Rightarrow> None
      | Some xs \<Rightarrow>
          (case nodes_all fuel h imgs of
             None \<Rightarrow> None
           | Some xss \<Rightarrow> Some (xs # xss)))"

definition images_at :: "'a heap \<Rightarrow> nat list \<Rightarrow> 'a list" where
  "images_at h xs = map (\<lambda>a. data (h ! a)) xs"

lemma flatten_nodes:
  "flatten fuel h img = (case nodes fuel h img of None \<Rightarrow> Inl RecursionError | Some xs \<Rightarrow> Inr (images_at h xs))"
  "flatten_children fuel h cs acc =
     (case nodes_children fuel h cs of None \<Rightarrow> Inl RecursionError | Some xs \<Rightarrow> Inr (acc @ images_at h xs))"
  by (induction fuel h img and fuel h cs acc rule: flatten_flatten_children.induct)
     (auto simp: images_at_def split: option.splits)

lemma flatten_all_nodes:
  "flatten_all fuel h roots =
     (case nodes_all fuel h roots of None \<Rightarrow> Inl RecursionError | Some xss \<Rightarrow> Inr (map (images_at h) xss))"
  by (induction roots) (auto simp: flatten_nodes split: option.splits)

lemma nodes_mono:
  "nodes fuel h img = Some xs \<Longrightarrow> nodes (Suc fuel) h img = Some xs"
  "nodes_children fuel h cs = Some ys \<Longrightarrow> nodes_children (Suc fuel) h cs = Some ys"
  by (induction fuel h img and fuel h cs arbitrary: xs and ys rule: nodes_nodes_children.induct)
     (auto split: option.splits)

lemma nodes_all_mono:
  "nodes_all fuel h roots = Some xss \<Longrightarrow> nodes_all (Suc fuel) h roots = Some xss"
  by (induction roots arbitrary: xss) (auto simp: nodes_mono simp del: nodes.simps split: option.splits)

lemma nodes_all_mono_le:
  "nodes_all fuel h roots = Some xss \<Longrightarrow> fuel \<le> fuel' \<Longrightarrow> nodes_all fuel' h roots = Some xss"
proof (induction "fuel' - fuel" arbitrary: fuel')
  case 0
  then show ?case by simp
next
  case (Suc k)
  then obtain f where f: "fuel' = Suc f" "fuel \<le> f" "k = f - fuel"
    by (cases fuel') auto
  from Suc.hyps(1) [OF f(3) Suc.prems(1) f(2)] f(1) show ?case
    by (simp add: nodes_all_mono)
qed

lemma nodes_all_unique:
  assumes "nodes_all fuel h roots = Some xss" "nodes_all fuel' h roots = Some yss"
  shows "xss = yss"
proof -
  from nodes_all_mono_le [OF assms(1), of "max fuel fuel'"]
    nodes_all_mono_le [OF assms(2), of "max fuel fuel'"]
  show ?thesis by simp
qed

lemma nodes_children_append:
  "nodes_children fuel h (cs @ ds) =
     (case nodes_children fuel h cs of
        None \<Rightarrow> None
      | Some xs \<Rightarrow>
          (case nodes_children fuel h ds of None \<Rightarrow> None | Some ys \<Rightarrow> Some (xs @ ys)))"
  by (induction cs) (auto split: option.splits)

lemma nodes_all_append:
  "nodes_all fuel h (rs @ ss) =
     (case nodes_all fuel h rs of
        None \<Rightarrow> None
      | Some xss \<Rightarrow>
          (case nodes_all fuel h ss of None \<Rightarrow> None | Some yss \<Rightarrow> Some (xss @ yss)))"
  by (induction rs) (auto split: option.splits)

lemma nodes_hd: "nodes fuel h img = Some xs \<Longrightarrow> \<exists>ys. xs = img # ys"
  by (cases fuel) (auto split: option.splits)

lemma nodes_all_length: "nodes_all fuel h roots = Some xss \<Longrightarrow> length xss = length roots"
  by (induction roots arbitrary: xss) (auto split: option.splits)

lemma nodes_all_nth:
  "nodes_all fuel h roots = Some xss \<Longrightarrow> i < length roots \<Longrightarrow> nodes fuel h (roots ! i) = Some (xss ! i)"
proof (induction roots arbitrary: xss i)
  case Nil
  then show ?case by simp
next
  case (Cons r roots)
  then show ?case by (cases i) (auto split: option.splits)
qed


subsection \<open>Attaching a record that has no duplicates of its own\<close>

lemma append_duplicate_length [simp]: "length (append_duplicate h p c) = length h"
  by (simp add: append_duplicate_def)

lemma append_duplicate_hash [simp]: "hash (append_duplicate h p c ! i) = hash (h ! i)"
  by (cases "p < length h"; cases "i = p") (simp_all add: append_duplicate_def list_update_beyond)

lemma append_duplicate_data [simp]: "data (append_duplicate h p c ! i) = data (h ! i)"
  by (cases "p < length h"; cases "i = p") (simp_all add: append_duplicate_def list_update_beyond)

lemma append_duplicate_other: "i \<noteq> p \<Longrightarrow> append_duplicate h p c ! i = h ! i"
  by (simp add: append_duplicate_def)

lemma append_duplicate_same:
  "p < length h \<Longrightarrow> duplicates (append_duplicate h p c ! p) = duplicates (h ! p) @ [c]"
  by (simp add: append_duplicate_def)

lemma replicate_mset_add: "replicate_mset (m + n) x = replicate_mset m x + replicate_mset n x"
  by (induction m) simp_all

lemma nodes_add_edge:
  "nodes fuel h r = Some xs \<Longrightarrow> c \<notin> set xs \<Longrightarrow>
     p < length h \<Longrightarrow> c \<noteq> p \<Longrightarrow> duplicates (h ! c) = [] \<Longrightarrow>
     \<exists>ys. nodes (Suc fuel) (append_duplicate h p c) r = Some ys \<and>
          mset ys = mset xs + replicate_mset (count (mset xs) p) c"
  "nodes_children fuel h cs = Some zs \<Longrightarrow> c \<notin> set zs \<Longrightarrow>
     p < length h \<Longrightarrow> c \<noteq> p \<Longrightarrow> duplicates (h ! c) = [] \<Longrightarrow>
     \<exists>ys. nodes_children (Suc fuel) (append_duplicate h p c) cs = Some ys \<and>
          mset ys = mset zs + replicate_mset (count (mset zs) p) c"
proof (induction fuel h r and fuel h cs arbitrary: xs and zs rule: nodes_nodes_children.induct)
  case (1 h img)
  then show ?case by simp
next
  case (2 fuel h img)
  let ?h = "append_duplicate h p c"
  note side = "2.prems"(3-5)
  from "2.prems" obtain zs where zs: "nodes_children fuel h (duplicates (h ! img)) = Some zs"
    and xs: "xs = img # zs"
    by (auto split: option.splits)
  from xs "2.prems" have nc: "c \<notin> set zs" and ic: "img \<noteq> c" by auto
  from "2.IH" [OF zs nc side] obtain ys
    where ys: "nodes_children (Suc fuel) ?h (duplicates (h ! img)) = Some ys"
      and m: "mset ys = mset zs + replicate_mset (count (mset zs) p) c"
    by blast
  show ?case
  proof (cases "img = p")
    case False
    then have "duplicates (?h ! img) = duplicates (h ! img)"
      by (simp add: append_duplicate_other)
    with ys have "nodes (Suc (Suc fuel)) ?h img = Some (img # ys)" by simp
    with m xs False show ?thesis by simp
  next
    case True
    have c: "nodes (Suc fuel) ?h c = Some [c]"
      using side by (simp add: append_duplicate_other)
    have "duplicates (?h ! img) = duplicates (h ! img) @ [c]"
      using True side by (simp add: append_duplicate_same)
    with ys c have "nodes_children (Suc fuel) ?h (duplicates (?h ! img)) = Some (ys @ [c])"
      by (simp add: nodes_children_append del: nodes.simps)
    then have "nodes (Suc (Suc fuel)) ?h img = Some (img # ys @ [c])"
      by (simp only: nodes.simps option.case)
    with m xs True show ?thesis by simp
  qed
next
  case (3 fuel h)
  then show ?case by simp
next
  case (4 fuel h child children)
  let ?h = "append_duplicate h p c"
  note side = "4.prems"(3-5)
  from "4.prems" obtain xs1 zs2 where x1: "nodes fuel h child = Some xs1"
    and z2: "nodes_children fuel h children = Some zs2" and zs: "zs = xs1 @ zs2"
    by (auto split: option.splits)
  from zs "4.prems" have n1: "c \<notin> set xs1" and n2: "c \<notin> set zs2" by auto
  from "4.IH"(1) [OF x1 n1 side] obtain ys1 where y1: "nodes (Suc fuel) ?h child = Some ys1"
    and m1: "mset ys1 = mset xs1 + replicate_mset (count (mset xs1) p) c"
    by blast
  from "4.IH"(2) [OF x1 z2 n2 side] obtain ys2 where y2: "nodes_children (Suc fuel) ?h children = Some ys2"
    and m2: "mset ys2 = mset zs2 + replicate_mset (count (mset zs2) p) c"
    by blast
  from y1 y2 have "nodes_children (Suc fuel) ?h (child # children) = Some (ys1 @ ys2)"
    by (simp del: nodes.simps)
  with m1 m2 zs show ?case by (simp add: replicate_mset_add del: nodes.simps)
qed


lemma nodes_all_add_edge:
  "nodes_all fuel h roots = Some xss \<Longrightarrow> c \<notin> set (concat xss) \<Longrightarrow>
     p < length h \<Longrightarrow> c \<noteq> p \<Longrightarrow> duplicates (h ! c) = [] \<Longrightarrow>
     \<exists>yss. nodes_all (Suc fuel) (append_duplicate h p c) roots = Some yss \<and>
           list_all2 (\<lambda>xs ys. mset ys = mset xs + replicate_mset (count (mset xs) p) c) xss yss"
proof (induction roots arbitrary: xss)
  case Nil
  then show ?case by simp
next
  case (Cons r roots)
  let ?h = "append_duplicate h p c"
  from Cons.prems obtain xs xss' where x: "nodes fuel h r = Some xs"
    and x': "nodes_all fuel h roots = Some xss'" and xss: "xss = xs # xss'"
    by (auto split: option.splits)
  from xss Cons.prems have n1: "c \<notin> set xs" and n2: "c \<notin> set (concat xss')" by auto
  from nodes_add_edge(1) [OF x n1 Cons.prems(3-5)] obtain ys where y: "nodes (Suc fuel) ?h r = Some ys"
    and m: "mset ys = mset xs + replicate_mset (count (mset xs) p) c"
    by blast
  from Cons.IH [OF x' n2 Cons.prems(3-5)] obtain yss where y': "nodes_all (Suc fuel) ?h roots = Some yss"
    and l: "list_all2 (\<lambda>xs ys. mset ys = mset xs + replicate_mset (count (mset xs) p) c) xss' yss"
    by blast
  from y y' have "nodes_all (Suc fuel) ?h (r # roots) = Some (ys # yss)"
    by (simp del: nodes.simps)
  with m l xss show ?case by simp
qed

lemma nodes_append_heap:
  "nodes fuel h r = Some xs \<Longrightarrow> \<forall>a\<in>set xs. a < length h \<Longrightarrow> nodes fuel (h @ es) r = Some xs"
  "nodes_children fuel h cs = Some zs \<Longrightarrow> \<forall>a\<in>set zs. a < length h \<Longrightarrow>
     nodes_children fuel (h @ es) cs = Some zs"
proof (induction fuel h r and fuel h cs arbitrary: xs and zs rule: nodes_nodes_children.induct)
  case (1 h img)
  then show ?case by simp
next
  case (2 fuel h img)
  from "2.prems" obtain zs where zs: "nodes_children fuel h (duplicates (h ! img)) = Some zs"
    and xs: "xs = img # zs"
    by (auto split: option.splits)
  from xs "2.prems" have v: "\<forall>a\<in>set zs. a < length h" and i: "img < length h" by auto
  from "2.IH" [OF zs v] i xs show ?case by (simp add: nth_append)
next
  case (3 fuel h)
  then show ?case by simp
next
  case (4 fuel h child children)
  from "4.prems" obtain xs1 zs2 where x1: "nodes fuel h child = Some xs1"
    and z2: "nodes_children fuel h children = Some zs2" and zs: "zs = xs1 @ zs2"
    by (auto split: option.splits)
  from zs "4.prems" have v1: "\<forall>a\<in>set xs1. a < length h" and v2: "\<forall>a\<in>set zs2. a < length h"
    by auto
  from "4.IH"(1) [OF x1 v1] "4.IH"(2) [OF x1 z2 v2] zs show ?case
    by (simp del: nodes.simps)
qed

lemma nodes_all_append_heap:
  "nodes_all fuel h roots = Some xss \<Longrightarrow> \<forall>a\<in>set (concat xss). a < length h \<Longrightarrow>
     nodes_all fuel (h @ es) roots = Some xss"
proof (induction roots arbitrary: xss)
  case Nil
  then show ?case by simp
next
  case (Cons r roots)
  from Cons.prems obtain xs xss' where x: "nodes fuel h r = Some xs"
    and x': "nodes_all fuel h roots = Some xss'" and xss: "xss = xs # xss'"
    by (auto split: option.splits)
  from xss Cons.prems have v1: "\<forall>a\<in>set xs. a < length h" and v2: "\<forall>a\<in>set (concat xss'). a < length h"
    by auto
  from nodes_append_heap(1) [OF x v1] Cons.IH [OF x' v2] xss show ?case
    by (simp del: nodes.simps)
qed

subsection \<open>The duplicates relation\<close>

definition edges :: "'a heap \<Rightarrow> (nat \<times> nat) set" where
  "edges h = {(p, c). p < length h \<and> c \<in> set (duplicates (h ! p))}"

text \<open>
  A forest: no record is in two \<open>duplicates\<close> lists or twice in one, and no record is
  reached from itself.
\<close>

definition forest :: "'a heap \<Rightarrow> bool" where
  "forest h \<longleftrightarrow> distinct (concat (map duplicates h)) \<and> acyclic (edges h)"

lemma edges_append_duplicate:
  "p < length h \<Longrightarrow> edges (append_duplicate h p c) = insert (p, c) (edges h)"
proof -
  assume p: "p < length h"
  have "duplicates (append_duplicate h p c ! q) = (if q = p then duplicates (h ! p) @ [c] else duplicates (h ! q))"
    for q using p by (simp add: append_duplicate_same append_duplicate_other)
  then show ?thesis using p by (auto simp: edges_def split: if_splits)
qed

lemma edges_append_record:
  "duplicates e = [] \<Longrightarrow> edges (h @ [e]) = edges h"
  by (auto simp: edges_def nth_append less_Suc_eq)

lemma acyclic_add_leaf:
  assumes "acyclic (edges h)" "p < length h" "c \<noteq> p" "duplicates (h ! c) = []"
  shows "acyclic (edges (append_duplicate h p c))"
proof -
  have "(c, p) \<notin> (edges h)\<^sup>*"
  proof
    assume "(c, p) \<in> (edges h)\<^sup>*"
    then show False
    proof (cases rule: converse_rtranclE)
      case base
      with assms(3) show ?thesis by simp
    next
      case (step y)
      with assms(4) show ?thesis by (simp add: edges_def)
    qed
  qed
  with assms show ?thesis by (simp add: edges_append_duplicate)
qed

lemma children_append_duplicate:
  assumes "p < length h"
  shows "mset (concat (map duplicates (append_duplicate h p c))) = add_mset c (mset (concat (map duplicates h)))"
proof -
  have h: "h = take p h @ h ! p # drop (Suc p) h"
    using assms by (rule id_take_nth_drop)
  have "append_duplicate h p c = take p h @ (h ! p)\<lparr>duplicates := duplicates (h ! p) @ [c]\<rparr> # drop (Suc p) h"
    using assms by (simp add: append_duplicate_def upd_conv_take_nth_drop)
  then have "mset (concat (map duplicates (append_duplicate h p c))) =
      add_mset c (mset (concat (map duplicates (take p h @ h ! p # drop (Suc p) h))))"
    by simp
  with h show ?thesis by simp
qed


subsection \<open>The invariant of the tree of duplicates\<close>

text \<open>
  \<open>tree_inv fuel h roots xss\<close>: flattening the roots with the given fuel visits the
  lists \<open>xss\<close> of records, no record twice; a record not visited has no duplicates;
  every record visited is a root or in exactly one \<open>duplicates\<close> list; there is no cycle.
\<close>

definition tree_inv :: "nat \<Rightarrow> 'a heap \<Rightarrow> nat list \<Rightarrow> nat list list \<Rightarrow> bool" where
  "tree_inv fuel h roots xss \<longleftrightarrow>
     nodes_all fuel h roots = Some xss \<and>
     distinct (concat xss) \<and>
     (\<forall>a\<in>set (concat xss). a < length h) \<and>
     (\<forall>i<length h. i \<notin> set (concat xss) \<longrightarrow> duplicates (h ! i) = []) \<and>
     mset roots + mset (concat (map duplicates h)) = mset (concat xss) \<and>
     acyclic (edges h)"

lemma tree_inv_empty: "tree_inv 0 [] [] []"
  by (simp add: tree_inv_def edges_def acyclic_def)

lemma distinct_submset:
  assumes "mset xs \<subseteq># mset ys" "distinct ys"
  shows "distinct xs"
proof -
  have "count (mset xs) a = (if a \<in> set xs then 1 else 0)" for a
  proof -
    have "count (mset xs) a \<le> count (mset ys) a"
      using assms(1) by (rule mset_subset_eq_count)
    also have "\<dots> \<le> 1"
      using assms(2) by (simp add: distinct_count_atmost_1)
    finally have le: "count (mset xs) a \<le> 1" .
    show ?thesis
    proof (cases "a \<in> set xs")
      case True
      then have "0 < count (mset xs) a" by simp
      with le have "count (mset xs) a = 1" by linarith
      with True show ?thesis by simp
    next
      case False
      then show ?thesis by (simp add: count_eq_zero_iff)
    qed
  qed
  then show ?thesis by (simp add: distinct_count_atmost_1)
qed

lemma tree_inv_forest: "tree_inv fuel h roots xss \<Longrightarrow> forest h"
proof -
  assume t: "tree_inv fuel h roots xss"
  then have "mset roots + mset (concat (map duplicates h)) = mset (concat xss)"
    by (simp add: tree_inv_def)
  then have "mset (concat (map duplicates h)) \<subseteq># mset (concat xss)"
    by (metis mset_subset_eq_add_right)
  moreover from t have "distinct (concat xss)" by (simp add: tree_inv_def)
  ultimately have "distinct (concat (map duplicates h))"
    by (rule distinct_submset)
  with t show ?thesis by (simp add: forest_def tree_inv_def)
qed

lemma tree_inv_mono: "tree_inv fuel h roots xss \<Longrightarrow> tree_inv (Suc fuel) h roots xss"
  by (simp add: tree_inv_def nodes_all_mono)

lemma tree_inv_append_record:
  assumes "tree_inv fuel h roots xss" "duplicates e = []"
  shows "tree_inv fuel (h @ [e]) roots xss"
proof -
  from assms(1) have n: "nodes_all fuel (h @ [e]) roots = Some xss"
    by (intro nodes_all_append_heap) (auto simp: tree_inv_def)
  have l: "duplicates ((h @ [e]) ! i) = []" if "i < length (h @ [e])" "i \<notin> set (concat xss)" for i
    using that assms by (cases "i < length h") (auto simp: tree_inv_def nth_append)
  from assms(1) have "\<forall>a\<in>set (concat xss). a < length (h @ [e])"
    unfolding tree_inv_def by (simp del: set_concat) (metis less_SucI)
  with assms n l show ?thesis
    by (simp add: tree_inv_def edges_append_record del: set_concat)
qed

lemma tree_inv_add_root:
  assumes "tree_inv fuel h roots xss" "r < length h" "r \<notin> set (concat xss)"
  shows "tree_inv (Suc fuel) h (roots @ [r]) (xss @ [[r]])"
proof -
  from assms have "duplicates (h ! r) = []" by (simp add: tree_inv_def del: set_concat)
  then have "nodes (Suc fuel) h r = Some [r]" by simp
  moreover from assms(1) have "nodes_all (Suc fuel) h roots = Some xss"
    by (simp add: tree_inv_def nodes_all_mono)
  ultimately have "nodes_all (Suc fuel) h (roots @ [r]) = Some (xss @ [[r]])"
    by (simp add: nodes_all_append del: nodes.simps)
  with assms show ?thesis by (auto simp: tree_inv_def)
qed

lemma tree_inv_add_edge:
  assumes t: "tree_inv fuel h roots xss" and p: "p \<in> set (concat xss)"
    and c: "c < length h" "c \<notin> set (concat xss)"
  shows "\<exists>yss. tree_inv (Suc fuel) (append_duplicate h p c) roots yss \<and>
           list_all2 (\<lambda>xs ys. mset ys = mset xs + replicate_mset (count (mset xs) p) c) xss yss \<and>
           mset (concat yss) = add_mset c (mset (concat xss))"
proof -
  let ?h = "append_duplicate h p c"
  let ?R = "\<lambda>xs ys. mset ys = mset xs + replicate_mset (count (mset xs) p) c"
  from t p have pl: "p < length h" by (simp add: tree_inv_def del: set_concat)
  from p c have cp: "c \<noteq> p" by auto
  from t c have leaf: "duplicates (h ! c) = []" by (simp add: tree_inv_def del: set_concat)
  from t have n: "nodes_all fuel h roots = Some xss" by (simp add: tree_inv_def)
  from nodes_all_add_edge [OF n c(2) pl cp leaf] obtain yss
    where y: "nodes_all (Suc fuel) ?h roots = Some yss" and l: "list_all2 ?R xss yss"
    by blast
  have "mset (concat yss) = mset (concat xss) + replicate_mset (count (mset (concat xss)) p) c"
    using l by (induction xss yss rule: list_all2_induct) (simp_all add: replicate_mset_add)
  moreover from t p have "count (mset (concat xss)) p = 1"
    by (simp add: tree_inv_def distinct_count_atmost_1 del: set_concat)
  ultimately have m: "mset (concat yss) = add_mset c (mset (concat xss))" by simp
  then have m': "mset (concat yss) = mset (c # concat xss)" by simp
  from mset_eq_setD [OF m'] have s: "set (concat yss) = insert c (set (concat xss))"
    by (simp del: set_concat)
  from mset_eq_imp_distinct_iff [OF m'] t c(2) have d: "distinct (concat yss)"
    by (simp add: tree_inv_def del: set_concat)
  have lv: "duplicates (?h ! i) = []" if "i < length ?h" "i \<notin> set (concat yss)" for i
  proof -
    from that s p have "i \<noteq> p" "i \<notin> set (concat xss)" by auto
    with that t show ?thesis by (simp add: append_duplicate_other tree_inv_def del: set_concat)
  qed
  from t have "mset roots + mset (concat (map duplicates ?h)) = mset (concat yss)"
    by (simp add: children_append_duplicate [OF pl] m tree_inv_def)
  moreover from t have "acyclic (edges ?h)"
    by (intro acyclic_add_leaf pl cp leaf) (simp add: tree_inv_def)
  moreover from s t c have "\<forall>a\<in>set (concat yss). a < length ?h"
    by (simp add: tree_inv_def del: set_concat)
  ultimately have "tree_inv (Suc fuel) ?h roots yss"
    using y d lv by (simp add: tree_inv_def del: set_concat)
  with l m show ?thesis by blast
qed


subsection \<open>Every record but the first of a group follows its parent\<close>

fun attached :: "'a heap \<Rightarrow> nat set \<Rightarrow> nat list \<Rightarrow> bool" where
  "attached h S [] = True"
| "attached h S (x # xs) = ((\<exists>y\<in>S. (y, x) \<in> edges h) \<and> attached h (insert x S) xs)"

lemma attached_mono: "attached h S xs \<Longrightarrow> S \<subseteq> T \<Longrightarrow> attached h T xs"
proof (induction xs arbitrary: S T)
  case Nil
  then show ?case by simp
next
  case (Cons x xs)
  from Cons.prems have "attached h (insert x S) xs" "insert x S \<subseteq> insert x T" by auto
  then have "attached h (insert x T) xs" by (rule Cons.IH)
  with Cons.prems show ?case by auto
qed

lemma attached_append:
  "attached h S (xs @ ys) \<longleftrightarrow> attached h S xs \<and> attached h (S \<union> set xs) ys"
  by (induction xs arbitrary: S) (simp_all add: Un_commute insert_commute)

lemma nodes_attached:
  "nodes fuel h r = Some xs \<Longrightarrow> \<forall>a\<in>set xs. a < length h \<Longrightarrow>
     \<exists>y\<in>S. (y, r) \<in> edges h \<Longrightarrow> attached h S xs"
  "nodes_children fuel h cs = Some zs \<Longrightarrow> \<forall>a\<in>set zs. a < length h \<Longrightarrow>
     \<forall>c\<in>set cs. \<exists>y\<in>S. (y, c) \<in> edges h \<Longrightarrow> attached h S zs"
proof (induction fuel h r and fuel h cs arbitrary: xs S and zs S rule: nodes_nodes_children.induct)
  case (1 h img)
  then show ?case by simp
next
  case (2 fuel h img)
  from "2.prems" obtain zs where zs: "nodes_children fuel h (duplicates (h ! img)) = Some zs"
    and xs: "xs = img # zs"
    by (auto split: option.splits)
  from xs "2.prems" have v: "\<forall>a\<in>set zs. a < length h" and i: "img < length h" by auto
  from i have "\<forall>c\<in>set (duplicates (h ! img)). \<exists>y\<in>insert img S. (y, c) \<in> edges h"
    by (auto simp: edges_def)
  from "2.IH" [OF zs v this] xs "2.prems"(3) show ?case by simp
next
  case (3 fuel h)
  then show ?case by simp
next
  case (4 fuel h child children)
  from "4.prems" obtain xs1 zs2 where x1: "nodes fuel h child = Some xs1"
    and z2: "nodes_children fuel h children = Some zs2" and zs: "zs = xs1 @ zs2"
    by (auto split: option.splits)
  from zs "4.prems" have v1: "\<forall>a\<in>set xs1. a < length h" and v2: "\<forall>a\<in>set zs2. a < length h"
    by auto
  from "4.prems"(3) have c1: "\<exists>y\<in>S. (y, child) \<in> edges h"
    and c2: "\<forall>c\<in>set children. \<exists>y\<in>S \<union> set xs1. (y, c) \<in> edges h"
    by auto
  from "4.IH"(1) [OF x1 v1 c1] "4.IH"(2) [OF x1 z2 v2 c2] zs show ?case
    by (simp add: attached_append)
qed

lemma nodes_root_attached:
  assumes "nodes fuel h r = Some xs" "\<forall>a\<in>set xs. a < length h"
  shows "\<exists>zs. xs = r # zs \<and> attached h {r} zs"
proof (cases fuel)
  case 0
  with assms show ?thesis by simp
next
  case (Suc f)
  with assms obtain zs where zs: "nodes_children f h (duplicates (h ! r)) = Some zs"
    and xs: "xs = r # zs"
    by (auto split: option.splits)
  from xs assms have v: "\<forall>a\<in>set zs. a < length h" and i: "r < length h" by auto
  from i have "\<forall>c\<in>set (duplicates (h ! r)). \<exists>y\<in>{r}. (y, c) \<in> edges h"
    by (auto simp: edges_def)
  from nodes_attached(2) [OF zs v this] xs show ?thesis by simp
qed

lemma attached_nth:
  "attached h S xs \<Longrightarrow> k < length xs \<Longrightarrow> \<exists>y\<in>S \<union> set (take k xs). (y, xs ! k) \<in> edges h"
proof (induction xs arbitrary: S k)
  case Nil
  then show ?case by simp
next
  case (Cons x xs)
  show ?case
  proof (cases k)
    case 0
    with Cons.prems show ?thesis by auto
  next
    case (Suc k')
    with Cons.prems have "\<exists>y\<in>insert x S \<union> set (take k' xs). (y, xs ! k') \<in> edges h"
      by (intro Cons.IH) auto
    with Suc show ?thesis by auto
  qed
qed

lemma nodes_parent_before:
  assumes "nodes fuel h r = Some xs" "\<forall>a\<in>set xs. a < length h" "k < length xs" "0 < k"
  shows "\<exists>q<k. (xs ! q, xs ! k) \<in> edges h"
proof -
  from nodes_root_attached [OF assms(1,2)] obtain zs where xs: "xs = r # zs" and a: "attached h {r} zs"
    by blast
  from assms(4) obtain k' where k: "k = Suc k'" by (cases k) auto
  with assms(3) xs have "k' < length zs" by simp
  from attached_nth [OF a this] have "\<exists>y\<in>set (take k xs). (y, xs ! k) \<in> edges h"
    using xs k by simp
  then obtain y where y: "y \<in> set (take k xs)" "(y, xs ! k) \<in> edges h" by blast
  from y(1) obtain q where "q < length (take k xs)" "take k xs ! q = y"
    by (auto simp: in_set_conv_nth)
  with y(2) assms(3) show ?thesis by auto
qed

lemma attached_reachable:
  "attached h S xs \<Longrightarrow> \<forall>y\<in>S. (r, y) \<in> (edges h)\<^sup>* \<Longrightarrow> \<forall>x\<in>set xs. (r, x) \<in> (edges h)\<^sup>*"
proof (induction xs arbitrary: S)
  case Nil
  then show ?case by simp
next
  case (Cons x xs)
  from Cons.prems obtain y where "y \<in> S" "(y, x) \<in> edges h" by auto
  with Cons.prems(2) have x: "(r, x) \<in> (edges h)\<^sup>*" by (meson rtrancl.rtrancl_into_rtrancl)
  with Cons.prems(2) have r: "\<forall>y\<in>insert x S. (r, y) \<in> (edges h)\<^sup>*" by simp
  from Cons.prems(1) have "attached h (insert x S) xs" by simp
  then have "\<forall>x\<in>set xs. (r, x) \<in> (edges h)\<^sup>*" using r by (rule Cons.IH)
  with x show ?case by simp
qed

lemma nodes_reachable:
  assumes "nodes fuel h r = Some xs" "\<forall>a\<in>set xs. a < length h"
  shows "\<forall>x\<in>set xs. (r, x) \<in> (edges h)\<^sup>*"
proof -
  from nodes_root_attached [OF assms] obtain zs where xs: "xs = r # zs" and a: "attached h {r} zs"
    by blast
  from attached_reachable [OF a, of r] xs show ?thesis by simp
qed

section \<open>Invariants of the approximate clusterer\<close>

definition lsh_close :: "nat \<Rightarrow> fingerprint \<Rightarrow> fingerprint \<Rightarrow> bool" where
  "lsh_close d a b = (case lsh_distance d a b of Inl e \<Rightarrow> False | Inr distance \<Rightarrow> num_less distance 10)"

text \<open>
  While the record \<open>cur\<close>, the last of the heap, goes through the bands: the buckets hold
  records of the heap; every record of a \<open>duplicates\<close> list passed the threshold test
  against the owner of the list; flattening the roots visits every record before \<open>cur\<close>
  once, and \<open>cur\<close> too as soon as it is attached.
\<close>

definition lsh_mid :: "nat \<Rightarrow> nat \<Rightarrow> bool \<Rightarrow> 'a lsh_state \<Rightarrow> nat list list \<Rightarrow> bool" where
  "lsh_mid d cur unique st xss \<longleftrightarrow>
     length (heap st) = Suc cur \<and>
     (\<forall>key b. hash_table st key = Some b \<longrightarrow> (\<forall>a\<in>set b. a \<le> cur)) \<and>
     (\<forall>(p, c)\<in>edges (heap st). lsh_close d (hash (heap st ! c)) (hash (heap st ! p))) \<and>
     (if unique
      then tree_inv cur (heap st) (result st) xss \<and> mset (concat xss) = mset [0..<cur]
      else tree_inv (Suc cur) (heap st) (result st) xss \<and> mset (concat xss) = mset [0..<Suc cur])"

definition lsh_inv :: "nat \<Rightarrow> 'a lsh_state \<Rightarrow> nat list list \<Rightarrow> bool" where
  "lsh_inv d st xss \<longleftrightarrow>
     (\<forall>key b. hash_table st key = Some b \<longrightarrow> (\<forall>a\<in>set b. a < length (heap st))) \<and>
     (\<forall>(p, c)\<in>edges (heap st). lsh_close d (hash (heap st ! c)) (hash (heap st ! p))) \<and>
     tree_inv (length (heap st)) (heap st) (result st) xss \<and>
     mset (concat xss) = mset [0..<length (heap st)]"

lemma lsh_scan_fields:
  "lsh_scan d cur l (unique, st) = Inr (unique', st') \<Longrightarrow>
     hash_table st' = hash_table st \<and> result st' = result st \<and> length (heap st') = length (heap st) \<and>
     map hash (heap st') = map hash (heap st) \<and> map data (heap st') = map data (heap st)"
proof (induction l arbitrary: unique st)
  case Nil
  then show ?case by simp
next
  case (Cons pd l)
  have m: "map hash (append_duplicate h p c) = map hash h \<and> map data (append_duplicate h p c) = map data h"
    for h :: "'a heap" and p c
    by (simp add: list_eq_iff_nth_eq)
  show ?case
  proof (cases "\<not> unique")
    case True
    with Cons.prems show ?thesis by simp
  next
    case False
    then have u: unique by simp
    show ?thesis
    proof (cases "cur = pd")
      case True
      with Cons.prems u have "lsh_scan d cur l (unique, st) = Inr (unique', st')" by simp
      then show ?thesis by (rule Cons.IH)
    next
      case False
      with Cons.prems(1) u obtain distance where
        dist: "lsh_distance d (hash (heap st ! cur)) (hash (heap st ! pd)) = Inr distance"
        by (auto split: sum.splits)
      show ?thesis
      proof (cases "num_less distance 10")
        case True
        let ?st = "st\<lparr>heap := append_duplicate (heap st) pd cur, duplicate_count := duplicate_count st + 1\<rparr>"
        from True Cons.prems(1) u False dist have "lsh_scan d cur l (False, ?st) = Inr (unique', st')"
          by simp
        from Cons.IH [OF this] show ?thesis by (simp add: m)
      next
        case nl: False
        with Cons.prems(1) u False dist have "lsh_scan d cur l (unique, st) = Inr (unique', st')"
          by simp
        then show ?thesis by (rule Cons.IH)
      qed
    qed
  qed
qed

lemma lsh_scan_mid:
  assumes "lsh_scan d cur l (unique, st) = Inr (unique', st')"
    and "lsh_mid d cur unique st xss" and "\<forall>a\<in>set l. a \<le> cur"
  shows "\<exists>yss. lsh_mid d cur unique' st' yss"
  using assms
proof (induction l arbitrary: unique st xss)
  case Nil
  then show ?case by auto
next
  case (Cons pd l)
  show ?case
  proof (cases "\<not> unique \<or> cur = pd")
    case True
    with Cons.prems Cons.IH [of unique st xss] show ?thesis
      by (auto split: if_splits)
  next
    case False
    then have u: unique and np: "cur \<noteq> pd" by auto
    from Cons.prems(3) np have pd: "pd < cur" by auto
    from Cons.prems(1) u np obtain distance where
      dist: "lsh_distance d (hash (heap st ! cur)) (hash (heap st ! pd)) = Inr distance"
      by (auto split: sum.splits)
    show ?thesis
    proof (cases "num_less distance 10")
      case False
      with Cons.prems u np dist Cons.IH [of unique st xss] show ?thesis by auto
    next
      case True
      let ?h = "append_duplicate (heap st) pd cur"
      let ?st = "st\<lparr>heap := ?h, duplicate_count := duplicate_count st + 1\<rparr>"
      from True Cons.prems(1) u np dist have run: "lsh_scan d cur l (False, ?st) = Inr (unique', st')"
        by simp
      from Cons.prems(2) u have t: "tree_inv cur (heap st) (result st) xss"
        and ms: "mset (concat xss) = mset [0..<cur]" and len: "length (heap st) = Suc cur"
        and cl: "\<forall>(p, c)\<in>edges (heap st). lsh_close d (hash (heap st ! c)) (hash (heap st ! p))"
        and bk: "\<forall>key b. hash_table st key = Some b \<longrightarrow> (\<forall>a\<in>set b. a \<le> cur)"
        by (auto simp: lsh_mid_def)
      from mset_eq_setD [OF ms] have s: "set (concat xss) = {0..<cur}" by (simp del: set_concat)
      from s pd have p_in: "pd \<in> set (concat xss)" by (simp del: set_concat)
      from s have c_out: "cur \<notin> set (concat xss)" by (simp del: set_concat)
      from tree_inv_add_edge [OF t p_in _ c_out] len obtain yss
        where t': "tree_inv (Suc cur) ?h (result st) yss"
          and m': "mset (concat yss) = add_mset cur (mset (concat xss))"
        by auto
      from m' ms have ms': "mset (concat yss) = mset [0..<Suc cur]" by simp
      from pd len have e: "edges ?h = insert (pd, cur) (edges (heap st))"
        by (simp add: edges_append_duplicate)
      from dist True have "lsh_close d (hash (heap st ! cur)) (hash (heap st ! pd))"
        by (simp add: lsh_close_def)
      with cl e have cl': "\<forall>(p, c)\<in>edges ?h. lsh_close d (hash (?h ! c)) (hash (?h ! p))"
        by auto
      from t' ms' cl' bk len have "lsh_mid d cur False ?st yss"
        by (simp add: lsh_mid_def)
      from Cons.IH [OF run this] Cons.prems(3) show ?thesis by simp
    qed
  qed
qed


lemma lsh_mid_table:
  assumes "lsh_mid d cur unique st xss" "\<forall>a\<in>set b. a \<le> cur"
  shows "lsh_mid d cur unique (st\<lparr>hash_table := (hash_table st)(key \<mapsto> b)\<rparr>) xss"
  using assms by (simp add: lsh_mid_def)

lemma lsh_bands_fields:
  "lsh_bands d cur gs (unique, st) = Inr (unique', st') \<Longrightarrow>
     result st' = result st \<and> length (heap st') = length (heap st) \<and>
     map hash (heap st') = map hash (heap st) \<and> map data (heap st') = map data (heap st)"
proof (induction gs arbitrary: unique st)
  case Nil
  then show ?case by simp
next
  case (Cons g gs)
  from Cons.prems obtain g_x unique1 st1 where
    key: "band_key d (hash (heap st ! cur)) g = Inr g_x"
    and scan: "lsh_scan d cur (case hash_table st g_x of None \<Rightarrow> [] | Some b \<Rightarrow> b) (unique, st) = Inr (unique1, st1)"
    and rest: "lsh_bands d cur gs (unique1, st1\<lparr>hash_table := (hash_table st1)(g_x \<mapsto>
                 (case hash_table st g_x of None \<Rightarrow> [] | Some b \<Rightarrow> b) @ [cur])\<rparr>) = Inr (unique', st')"
    by (auto split: sum.splits simp: Let_def)
  from Cons.IH [OF rest] lsh_scan_fields [OF scan] show ?case by simp
qed

lemma lsh_bands_mid:
  assumes "lsh_bands d cur gs (unique, st) = Inr (unique', st')" and "lsh_mid d cur unique st xss"
  shows "\<exists>yss. lsh_mid d cur unique' st' yss"
  using assms
proof (induction gs arbitrary: unique st xss)
  case Nil
  then show ?case by auto
next
  case (Cons g gs)
  let ?l = "\<lambda>g_x. case hash_table st g_x of None \<Rightarrow> [] | Some b \<Rightarrow> b"
  from Cons.prems(1) obtain g_x unique1 st1 where
    key: "band_key d (hash (heap st ! cur)) g = Inr g_x"
    and scan: "lsh_scan d cur (?l g_x) (unique, st) = Inr (unique1, st1)"
    and rest: "lsh_bands d cur gs (unique1, st1\<lparr>hash_table := (hash_table st1)(g_x \<mapsto> ?l g_x @ [cur])\<rparr>)
                 = Inr (unique', st')"
    by (auto split: sum.splits simp: Let_def)
  have l: "\<forall>a\<in>set (?l g_x). a \<le> cur"
  proof (cases "hash_table st g_x")
    case None
    then show ?thesis by simp
  next
    case (Some b)
    with Cons.prems(2) have "\<forall>a\<in>set b. a \<le> cur" unfolding lsh_mid_def by blast
    with Some show ?thesis by simp
  qed
  from lsh_scan_mid [OF scan Cons.prems(2) l] obtain yss where "lsh_mid d cur unique1 st1 yss"
    by blast
  then have "lsh_mid d cur unique1 (st1\<lparr>hash_table := (hash_table st1)(g_x \<mapsto> ?l g_x @ [cur])\<rparr>) yss"
    using l by (intro lsh_mid_table) auto
  from Cons.IH [OF rest this] show ?case .
qed

definition hashed_by :: "('a \<Rightarrow> error + fingerprint) \<Rightarrow> 'a heap \<Rightarrow> bool" where
  "hashed_by hf h \<longleftrightarrow> (\<forall>i<length h. hf (data (h ! i)) = Inr (hash (h ! i)))"

lemma hashed_by_maps:
  "map hash h' = map hash h \<Longrightarrow> map data h' = map data h \<Longrightarrow> hashed_by hf h \<Longrightarrow> hashed_by hf h'"
proof -
  assume a: "map hash h' = map hash h" "map data h' = map data h" "hashed_by hf h"
  from a(1) have l: "length h' = length h" by (rule map_eq_imp_length_eq)
  have "hash (h' ! i) = hash (h ! i) \<and> data (h' ! i) = data (h ! i)" if "i < length h" for i
    using that a(1,2) l by (metis nth_map)
  with a(3) l show ?thesis by (simp add: hashed_by_def)
qed

lemma edges_visited:
  assumes "tree_inv fuel h roots xss" "(p, c) \<in> edges h"
  shows "c \<in> set (concat xss)"
proof -
  from assms(2) have p: "p < length h" and c: "c \<in> set (duplicates (h ! p))"
    by (auto simp: edges_def)
  from c p have "c \<in> set (concat (map duplicates h))" by auto
  then have "c \<in># mset roots + mset (concat (map duplicates h))"
    by (simp del: set_concat)
  with assms(1) have "c \<in># mset (concat xss)" by (simp add: tree_inv_def)
  then show ?thesis by (simp del: set_concat)
qed

lemma lsh_mid_done:
  assumes "lsh_mid d cur False st xss"
  shows "lsh_inv d st xss"
proof -
  from assms have len: "length (heap st) = Suc cur"
    and bk: "\<forall>key b. hash_table st key = Some b \<longrightarrow> (\<forall>a\<in>set b. a \<le> cur)"
    and cl: "\<forall>(p, c)\<in>edges (heap st). lsh_close d (hash (heap st ! c)) (hash (heap st ! p))"
    and t: "tree_inv (Suc cur) (heap st) (result st) xss"
    and ms: "mset (concat xss) = mset [0..<Suc cur]"
    unfolding lsh_mid_def by simp_all
  from bk len have "\<forall>key b. hash_table st key = Some b \<longrightarrow> (\<forall>a\<in>set b. a < length (heap st))"
    by (simp add: less_Suc_eq_le)
  with cl t ms len show ?thesis unfolding lsh_inv_def by simp
qed

lemma lsh_mid_root:
  assumes "lsh_mid d cur True st xss"
  shows "lsh_inv d (st\<lparr>result := result st @ [cur]\<rparr>) (xss @ [[cur]])"
proof -
  from assms have len: "length (heap st) = Suc cur"
    and bk: "\<forall>key b. hash_table st key = Some b \<longrightarrow> (\<forall>a\<in>set b. a \<le> cur)"
    and cl: "\<forall>(p, c)\<in>edges (heap st). lsh_close d (hash (heap st ! c)) (hash (heap st ! p))"
    and t: "tree_inv cur (heap st) (result st) xss"
    and ms: "mset (concat xss) = mset [0..<cur]"
    unfolding lsh_mid_def by simp_all
  from mset_eq_setD [OF ms] have "cur \<notin> set (concat xss)" by (simp del: set_concat)
  from tree_inv_add_root [OF t _ this] len
  have t': "tree_inv (Suc cur) (heap st) (result st @ [cur]) (xss @ [[cur]])" by simp
  from ms have ms': "mset (concat (xss @ [[cur]])) = mset [0..<Suc cur]" by simp
  from bk len have "\<forall>key b. hash_table st key = Some b \<longrightarrow> (\<forall>a\<in>set b. a < length (heap st))"
    by (simp add: less_Suc_eq_le)
  with cl t' ms' len show ?thesis unfolding lsh_inv_def by simp
qed

lemma lsh_inv_new:
  assumes "lsh_inv d st xss" "duplicates new = []"
  shows "lsh_mid d (length (heap st)) True (st\<lparr>heap := heap st @ [new]\<rparr>) xss"
proof -
  let ?cur = "length (heap st)"
  from assms(1) have t: "tree_inv ?cur (heap st) (result st) xss"
    and ms: "mset (concat xss) = mset [0..<?cur]"
    and cl: "\<forall>(p, c)\<in>edges (heap st). lsh_close d (hash (heap st ! c)) (hash (heap st ! p))"
    and bk: "\<forall>key b. hash_table st key = Some b \<longrightarrow> (\<forall>a\<in>set b. a < ?cur)"
    unfolding lsh_inv_def by simp_all
  have t1: "tree_inv ?cur (heap st @ [new]) (result st) xss"
    using t assms(2) by (rule tree_inv_append_record)
  have cl1: "lsh_close d (hash ((heap st @ [new]) ! c)) (hash ((heap st @ [new]) ! p))"
    if "(p, c) \<in> edges (heap st @ [new])" for p c
  proof -
    from that assms(2) have e: "(p, c) \<in> edges (heap st)" by (simp add: edges_append_record)
    then have p: "p < ?cur" by (simp add: edges_def)
    from edges_visited [OF t e] mset_eq_setD [OF ms] have c: "c < ?cur" by (simp del: set_concat)
    from cl e have "lsh_close d (hash (heap st ! c)) (hash (heap st ! p))" by blast
    with p c show ?thesis by (simp add: nth_append)
  qed
  from bk have bk1: "\<forall>key b. hash_table st key = Some b \<longrightarrow> (\<forall>a\<in>set b. a \<le> ?cur)"
    by (meson less_imp_le)
  from t1 ms cl1 bk1 show ?thesis unfolding lsh_mid_def by auto
qed

lemma hashed_by_new:
  assumes "hashed_by hf h" "hf img = Inr fp"
  shows "hashed_by hf (h @ [\<lparr>data = img, hash = fp, duplicates = []\<rparr>])"
  using assms by (auto simp: hashed_by_def nth_append less_Suc_eq)

lemma lsh_images_Cons:
  assumes "lsh_images self (img # imgs) st = Inr st'"
  obtains fp unique st2 where "hash_func self img = Inr fp"
    and "lsh_bands (lsh_d self) (length (heap st)) (projections self)
           (True, st\<lparr>heap := heap st @ [\<lparr>data = img, hash = fp, duplicates = []\<rparr>]\<rparr>) = Inr (unique, st2)"
    and "lsh_images self imgs (if unique then st2\<lparr>result := result st2 @ [length (heap st)]\<rparr> else st2) = Inr st'"
proof (cases "hash_func self img")
  case (Inl e)
  with assms show ?thesis by simp
next
  case (Inr fp)
  show ?thesis
  proof (cases "lsh_bands (lsh_d self) (length (heap st)) (projections self)
           (True, st\<lparr>heap := heap st @ [\<lparr>data = img, hash = fp, duplicates = []\<rparr>]\<rparr>)")
    case (Inl e)
    with assms Inr show ?thesis by (simp add: Let_def)
  next
    case r: (Inr r)
    obtain u s2 where p: "r = (u, s2)" by (cases r)
    from assms Inr r p
    have "lsh_images self imgs (if u then s2\<lparr>result := result s2 @ [length (heap st)]\<rparr> else s2) = Inr st'"
      by (simp add: Let_def del: lsh_images.simps(2) add: lsh_images.simps(2) [of self img imgs st])
    with Inr r p that show ?thesis by blast
  qed
qed

lemma lsh_images_inv:
  assumes "lsh_images self imgs st = Inr st'" and "lsh_inv (lsh_d self) st xss"
    and "hashed_by (hash_func self) (heap st)"
  shows "\<exists>yss. lsh_inv (lsh_d self) st' yss \<and> map data (heap st') = map data (heap st) @ imgs \<and>
           hashed_by (hash_func self) (heap st')"
  using assms
proof (induction imgs arbitrary: st xss)
  case Nil
  then show ?case by auto
next
  case (Cons img imgs)
  let ?d = "lsh_d self"
  let ?cur = "length (heap st)"
  from Cons.prems(1) obtain fp unique st2 where fp: "hash_func self img = Inr fp"
    and bands: "lsh_bands ?d ?cur (projections self)
           (True, st\<lparr>heap := heap st @ [\<lparr>data = img, hash = fp, duplicates = []\<rparr>]\<rparr>) = Inr (unique, st2)"
    and rest: "lsh_images self imgs (if unique then st2\<lparr>result := result st2 @ [?cur]\<rparr> else st2) = Inr st'"
    by (rule lsh_images_Cons)
  let ?new = "\<lparr>data = img, hash = fp, duplicates = []\<rparr>"
  let ?st1 = "st\<lparr>heap := heap st @ [?new]\<rparr>"
  let ?st3 = "if unique then st2\<lparr>result := result st2 @ [?cur]\<rparr> else st2"
  have mid: "lsh_mid ?d ?cur True ?st1 xss"
    using Cons.prems(2) by (rule lsh_inv_new) simp
  from lsh_bands_mid [OF bands mid] obtain yss where mid2: "lsh_mid ?d ?cur unique st2 yss"
    by blast
  from lsh_bands_fields [OF bands] have f: "map hash (heap st2) = map hash (heap st) @ [fp]"
    "map data (heap st2) = map data (heap st) @ [img]"
    by simp_all
  have "\<exists>zss. lsh_inv ?d ?st3 zss"
  proof (cases unique)
    case False
    with mid2 have "lsh_inv ?d ?st3 yss" by (simp add: lsh_mid_done)
    then show ?thesis ..
  next
    case True
    with mid2 have "lsh_inv ?d ?st3 (yss @ [[?cur]])" by (simp add: lsh_mid_root)
    then show ?thesis ..
  qed
  then obtain zss where inv3: "lsh_inv ?d ?st3 zss" ..
  have "hashed_by (hash_func self) (heap st2)"
  proof -
    have "hashed_by (hash_func self) (heap st @ [?new])"
      using Cons.prems(3) fp by (rule hashed_by_new)
    moreover from f have "map hash (heap st2) = map hash (heap st @ [?new])"
      "map data (heap st2) = map data (heap st @ [?new])"
      by simp_all
    ultimately show "hashed_by (hash_func self) (heap st2)"
      using hashed_by_maps [of "heap st2" "heap st @ [?new]" "hash_func self"] by blast
  qed
  then have hb: "hashed_by (hash_func self) (heap ?st3)" by simp
  from Cons.IH [OF rest inv3 hb] obtain yss' where
    "lsh_inv ?d st' yss'" "map data (heap st') = map data (heap ?st3) @ imgs" "hashed_by (hash_func self) (heap st')"
    by blast
  moreover have "map data (heap ?st3) = map data (heap st) @ [img]" using f(2) by simp
  ultimately show ?case by auto
qed


lemma images_at_nth:
  assumes "map data h = imgs" "\<forall>a\<in>set xs. a < length h"
  shows "images_at h xs = map (\<lambda>a. imgs ! a) xs"
proof -
  have "data (h ! a) = imgs ! a" if "a < length h" for a
    using that assms(1) by (metis nth_map)
  with assms(2) show ?thesis by (simp add: images_at_def)
qed

lemma images_at_groups:
  assumes "map data h = imgs" "\<forall>a\<in>set (concat xss). a < length h"
  shows "map (images_at h) xss = map (map (\<lambda>a. imgs ! a)) xss"
  using assms by (auto intro!: images_at_nth)

definition lsh_init :: "'a lsh_state" where
  "lsh_init = \<lparr>heap = [], result = [], duplicate_count = 0, hash_table = Map.empty\<rparr>"

lemma lsh_inv_init: "lsh_inv d lsh_init []"
  by (simp add: lsh_inv_def lsh_init_def tree_inv_empty edges_def)

lemma flatten_all_groups:
  assumes n: "nodes_all fuel h roots = Some xss" and dat: "map data h = imgs"
    and v: "\<forall>a\<in>set (concat xss). a < length h"
  shows "fuel \<le> limit \<Longrightarrow> flatten_all limit h roots = Inr (map (map (\<lambda>a. imgs ! a)) xss)"
    and "flatten_all limit h roots = Inr groups \<Longrightarrow> groups = map (map (\<lambda>a. imgs ! a)) xss"
proof -
  note g = images_at_groups [OF dat v]
  show "flatten_all limit h roots = Inr (map (map (\<lambda>a. imgs ! a)) xss)" if "fuel \<le> limit"
    using nodes_all_mono_le [OF n that] g by (simp add: flatten_all_nodes)
  show "groups = map (map (\<lambda>a. imgs ! a)) xss" if r: "flatten_all limit h roots = Inr groups"
  proof (cases "nodes_all limit h roots")
    case None
    with r show ?thesis by (simp add: flatten_all_nodes)
  next
    case (Some yss)
    from nodes_all_unique [OF n Some] have "yss = xss" by simp
    with Some r g show ?thesis by (simp add: flatten_all_nodes)
  qed
qed

lemma lsh_final:
  assumes "lsh_images self imgs lsh_init = Inr st"
  shows "\<exists>xss. lsh_inv (lsh_d self) st xss \<and> map data (heap st) = imgs \<and>
           hashed_by (hash_func self) (heap st) \<and>
           (\<forall>limit. length imgs \<le> limit \<longrightarrow>
              lsh_deduplicate limit self imgs = Inr (map (map (\<lambda>a. imgs ! a)) xss)) \<and>
           (\<forall>limit groups. lsh_deduplicate limit self imgs = Inr groups \<longrightarrow>
              groups = map (map (\<lambda>a. imgs ! a)) xss)"
proof -
  have h0: "hashed_by (hash_func self) (heap (lsh_init :: 'a lsh_state))"
    by (simp add: hashed_by_def lsh_init_def)
  from lsh_images_inv [OF assms lsh_inv_init h0] obtain xss where
    inv: "lsh_inv (lsh_d self) st xss" and dat: "map data (heap st) = imgs"
    and hb: "hashed_by (hash_func self) (heap st)"
    by (auto simp: lsh_init_def)
  from inv have t: "tree_inv (length (heap st)) (heap st) (result st) xss"
    by (simp add: lsh_inv_def)
  then have n: "nodes_all (length (heap st)) (heap st) (result st) = Some xss"
    and v: "\<forall>a\<in>set (concat xss). a < length (heap st)"
    by (simp_all add: tree_inv_def del: set_concat)
  from dat have lh: "length (heap st) = length imgs" by (metis length_map)
  from assms have run: "lsh_deduplicate limit self imgs = flatten_all limit (heap st) (result st)" for limit
    by (simp add: lsh_deduplicate_def lsh_init_def)
  note f = flatten_all_groups [OF n dat v]
  have 1: "\<forall>limit. length imgs \<le> limit \<longrightarrow>
              lsh_deduplicate limit self imgs = Inr (map (map (\<lambda>a. imgs ! a)) xss)"
    using f(1) run lh by simp
  have 2: "\<forall>limit groups. lsh_deduplicate limit self imgs = Inr groups \<longrightarrow>
              groups = map (map (\<lambda>a. imgs ! a)) xss"
    using f(2) run by simp
  from inv dat hb 1 2 show ?thesis by blast
qed

section \<open>Invariants of the exact clusterer\<close>

definition bf_close :: "fingerprint \<Rightarrow> fingerprint \<Rightarrow> bool" where
  "bf_close a b = (case bf_distance a b of Inl e \<Rightarrow> False | Inr distance \<Rightarrow> num_less distance 10)"

definition near :: "fingerprint list \<Rightarrow> nat \<Rightarrow> nat \<Rightarrow> bool" where
  "near fps u v = bf_close (fps ! u) (fps ! v)"

lemma differing_sym: "differing u v = differing v u"
proof -
  have "length (filter (\<lambda>(a, b). a \<noteq> b) (zip u v)) = length (filter (\<lambda>(a, b). a \<noteq> b) (zip v u))"
  proof (induction u arbitrary: v)
    case Nil
    then show ?case by simp
  next
    case (Cons a u)
    then show ?case by (cases v) auto
  qed
  then show ?thesis by (simp add: differing_def)
qed

lemma hamming_sym: "hamming u v = hamming v u"
  by (auto simp: hamming_def differing_sym [of u v])

lemma bf_close_sym: "bf_close a b = bf_close b a"
  by (simp add: bf_close_def bf_distance_def hamming_sym [of a b])

lemma near_sym: "near fps u v = near fps v u"
  by (simp add: near_def bf_close_sym [of "fps ! u"])

definition visited :: "nat list list \<Rightarrow> nat set" where
  "visited xss = set (concat xss)"

text \<open>
  \<open>B\<close> holds the record taken from the queue that is being compared with the others
  (or nothing), \<open>D\<close> the positions it has been compared with already. The groups finished
  before the current one are closed under the threshold relation; so is every visited
  record that has left the queue.
\<close>

definition bf_inv :: "fingerprint list \<Rightarrow> nat set \<Rightarrow> nat set \<Rightarrow> 'a bf_state \<Rightarrow> nat list list \<Rightarrow> bool" where
  "bf_inv fps B D st xss \<longleftrightarrow>
     map hash (heap st) = fps \<and>
     length (matched st) = length fps \<and>
     tree_inv (length (concat xss)) (heap st) (result st) xss \<and>
     visited xss = {i. i < length fps \<and> matched st ! i} \<and>
     (\<forall>(p, c)\<in>edges (heap st). near fps p c) \<and>
     (\<forall>S\<in>set (map set (butlast xss)). \<forall>u\<in>S. \<forall>v<length fps. near fps u v \<longrightarrow> v \<in> S) \<and>
     (\<forall>q\<in>set (queue st) \<union> B. xss \<noteq> [] \<and> q \<in> set (last xss)) \<and>
     (\<forall>u\<in>visited xss. u \<notin> set (queue st) \<union> B \<longrightarrow> (\<forall>v<length fps. near fps u v \<longrightarrow> v \<in> visited xss)) \<and>
     (\<forall>u\<in>B. \<forall>v\<in>D. near fps u v \<longrightarrow> v \<in> visited xss)"

lemma attach_sets:
  assumes l: "list_all2 (\<lambda>xs ys. mset ys = mset xs + replicate_mset (count (mset xs) p) c) xss yss"
    and d: "distinct (concat xss)" and ne: "xss \<noteq> []" and p: "p \<in> set (last xss)"
  shows "yss \<noteq> [] \<and> map set (butlast yss) = map set (butlast xss) \<and>
         set (last yss) = insert c (set (last xss))"
proof -
  let ?R = "\<lambda>xs ys. mset ys = mset xs + replicate_mset (count (mset xs) p) c"
  from ne obtain bs x where xss: "xss = bs @ [x]" by (cases xss rule: rev_cases) auto
  with l obtain cs y where yss: "yss = cs @ [y]" and lb: "list_all2 ?R bs cs" and ly: "?R x y"
    by (auto simp: list_all2_append1 list_all2_Cons1)
  from xss p d have px: "p \<in> set x" and dx: "distinct x" and nb: "\<forall>b\<in>set bs. p \<notin> set b"
    by auto
  from px dx have "count (mset x) p = 1" by (simp add: distinct_count_atmost_1)
  with ly have "mset y = mset (c # x)" by simp
  from mset_eq_setD [OF this] have sy: "set y = insert c (set x)" by simp
  from lb nb have "map set cs = map set bs"
  proof (induction bs cs rule: list_all2_induct)
    case Nil
    then show ?case by simp
  next
    case (Cons b bs c' cs)
    from Cons.prems have "p \<notin> set b" by simp
    then have "count (mset b) p = 0" by (simp add: count_eq_zero_iff)
    with Cons.hyps(1) have "mset c' = mset b" by simp
    from mset_eq_setD [OF this] Cons show ?case by simp
  qed
  with xss yss sy show ?thesis by simp
qed


lemma append_duplicate_maps [simp]:
  "map hash (append_duplicate h p c) = map hash h" "map data (append_duplicate h p c) = map data h"
  by (simp_all add: list_eq_iff_nth_eq)

lemma last_in_visited: "xss \<noteq> [] \<Longrightarrow> q \<in> set (last xss) \<Longrightarrow> q \<in> visited xss"
  unfolding visited_def by (auto intro: last_in_set)

lemma bf_invD:
  assumes "bf_inv fps B D st xss"
  shows "map hash (heap st) = fps" "length (matched st) = length fps"
    "tree_inv (length (concat xss)) (heap st) (result st) xss"
    "visited xss = {i. i < length fps \<and> matched st ! i}"
    "\<forall>(p, c)\<in>edges (heap st). near fps p c"
    "\<forall>S\<in>set (map set (butlast xss)). \<forall>u\<in>S. \<forall>v<length fps. near fps u v \<longrightarrow> v \<in> S"
    "\<forall>q\<in>set (queue st) \<union> B. xss \<noteq> [] \<and> q \<in> set (last xss)"
    "\<forall>u\<in>visited xss. u \<notin> set (queue st) \<union> B \<longrightarrow> (\<forall>v<length fps. near fps u v \<longrightarrow> v \<in> visited xss)"
    "\<forall>u\<in>B. \<forall>v\<in>D. near fps u v \<longrightarrow> v \<in> visited xss"
  using assms unfolding bf_inv_def by blast+

lemma bf_invI:
  assumes "map hash (heap st) = fps" "length (matched st) = length fps"
    "tree_inv (length (concat xss)) (heap st) (result st) xss"
    "visited xss = {i. i < length fps \<and> matched st ! i}"
    "\<forall>(p, c)\<in>edges (heap st). near fps p c"
    "\<forall>S\<in>set (map set (butlast xss)). \<forall>u\<in>S. \<forall>v<length fps. near fps u v \<longrightarrow> v \<in> S"
    "\<forall>q\<in>set (queue st) \<union> B. xss \<noteq> [] \<and> q \<in> set (last xss)"
    "\<forall>u\<in>visited xss. u \<notin> set (queue st) \<union> B \<longrightarrow> (\<forall>v<length fps. near fps u v \<longrightarrow> v \<in> visited xss)"
    "\<forall>u\<in>B. \<forall>v\<in>D. near fps u v \<longrightarrow> v \<in> visited xss"
  shows "bf_inv fps B D st xss"
  using assms unfolding bf_inv_def by blast

lemma bf_inv_compared:
  assumes "bf_inv fps {img} D st xss" "near fps img i \<longrightarrow> i \<in> visited xss"
  shows "bf_inv fps {img} (insert i D) st xss"
proof (rule bf_invI)
  from bf_invD(9) [OF assms(1)] assms(2)
  show "\<forall>u\<in>{img}. \<forall>v\<in>insert i D. near fps u v \<longrightarrow> v \<in> visited xss" by blast
qed (use bf_invD [OF assms(1)] in blast)+

lemma bf_inv_attach:
  assumes inv: "bf_inv fps {img} D st xss" and i: "i < length fps" "\<not> matched st ! i"
    and n: "near fps img i"
  shows "\<exists>yss. bf_inv fps {img} (insert i D)
           (st\<lparr>heap := append_duplicate (heap st) img i, queue := queue st @ [i],
               matched := (matched st)[i := True], duplicate_count := duplicate_count st + 1\<rparr>) yss"
proof -
  let ?h = "append_duplicate (heap st) img i"
  let ?st = "st\<lparr>heap := ?h, queue := queue st @ [i],
               matched := (matched st)[i := True], duplicate_count := duplicate_count st + 1\<rparr>"
  note hm = bf_invD(1) [OF inv] and lm = bf_invD(2) [OF inv] and t = bf_invD(3) [OF inv]
    and vis = bf_invD(4) [OF inv] and ec = bf_invD(5) [OF inv] and old = bf_invD(6) [OF inv]
    and q = bf_invD(7) [OF inv] and cl = bf_invD(8) [OF inv] and dn = bf_invD(9) [OF inv]
  from hm have lh: "length (heap st) = length fps" by (metis length_map)
  from q have ne: "xss \<noteq> []" and il: "img \<in> set (last xss)" by simp_all
  from last_in_visited [OF ne il] have iv: "img \<in> set (concat xss)" unfolding visited_def .
  from vis i have "i \<notin> visited xss" by simp
  then have io: "i \<notin> set (concat xss)" unfolding visited_def .
  from i lh have ih: "i < length (heap st)" by simp
  let ?R = "\<lambda>xs ys. mset ys = mset xs + replicate_mset (count (mset xs) img) i"
  from tree_inv_add_edge [OF t iv ih io] obtain yss where
    t': "tree_inv (Suc (length (concat xss))) ?h (result st) yss"
    and l: "list_all2 ?R xss yss" and m: "mset (concat yss) = add_mset i (mset (concat xss))"
    by blast
  from m have "size (mset (concat yss)) = Suc (size (mset (concat xss)))" by simp
  then have len: "length (concat yss) = Suc (length (concat xss))" by (simp only: size_mset)
  from m have "mset (concat yss) = mset (i # concat xss)" by simp
  from mset_eq_setD [OF this] have vy: "visited yss = insert i (visited xss)"
    unfolding visited_def by (simp del: set_concat)
  from t have dx: "distinct (concat xss)" by (simp add: tree_inv_def)
  from attach_sets [OF l dx ne il] have ney: "yss \<noteq> []"
    and bl: "map set (butlast yss) = map set (butlast xss)"
    and la: "set (last yss) = insert i (set (last xss))"
    by simp_all
  have 1: "map hash (heap ?st) = fps" using hm by simp
  have 2: "length (matched ?st) = length fps" using lm by simp
  have 3: "tree_inv (length (concat yss)) (heap ?st) (result ?st) yss" using t' len by simp
  have 4: "visited yss = {j. j < length fps \<and> matched ?st ! j}"
    using vy vis i lm by (auto simp: nth_list_update)
  have 5: "\<forall>(p, c)\<in>edges (heap ?st). near fps p c"
  proof -
    from iv t have "img < length (heap st)" by (simp add: tree_inv_def del: set_concat)
    then have "edges ?h = insert (img, i) (edges (heap st))" by (rule edges_append_duplicate)
    with ec n show ?thesis by simp
  qed
  have 6: "\<forall>S\<in>set (map set (butlast yss)). \<forall>u\<in>S. \<forall>v<length fps. near fps u v \<longrightarrow> v \<in> S"
    using old bl by simp
  have 7: "\<forall>q\<in>set (queue ?st) \<union> {img}. yss \<noteq> [] \<and> q \<in> set (last yss)"
    using q ney la by auto
  have 8: "\<forall>u\<in>visited yss. u \<notin> set (queue ?st) \<union> {img} \<longrightarrow>
             (\<forall>v<length fps. near fps u v \<longrightarrow> v \<in> visited yss)"
    using cl vy by auto
  have 9: "\<forall>u\<in>{img}. \<forall>v\<in>insert i D. near fps u v \<longrightarrow> v \<in> visited yss"
    using dn vy by auto
  from 1 2 3 4 5 6 7 8 9 have "bf_inv fps {img} (insert i D) ?st yss"
    by (rule bf_invI)
  then show ?thesis ..
qed


lemma bf_scan_inv:
  assumes "bf_scan img is st = Inr st'" "bf_inv fps {img} D st xss" "\<forall>i\<in>set is. i < length fps"
  shows "\<exists>yss. bf_inv fps {img} (D \<union> set is) st' yss"
  using assms
proof (induction "is" arbitrary: st xss D)
  case Nil
  then show ?case by auto
next
  case (Cons i "is")
  note inv = Cons.prems(2)
  from Cons.prems(3) have i: "i < length fps" and rest: "\<forall>i\<in>set is. i < length fps" by auto
  have D: "D \<union> set (i # is) = insert i D \<union> set is" by simp
  from bf_invD(7) [OF inv] have "xss \<noteq> []" "img \<in> set (last xss)" by simp_all
  then have img_v: "img \<in> visited xss" by (rule last_in_visited)
  show ?case
  proof (cases "img = i")
    case True
    with Cons.prems(1) have run: "bf_scan img is st = Inr st'" by simp
    from inv have "bf_inv fps {img} (insert i D) st xss"
      by (rule bf_inv_compared) (use True img_v in simp)
    from Cons.IH [OF run this rest] D show ?thesis by simp
  next
    case ne: False
    from bf_invD(2) [OF inv] i have li: "\<not> length (matched st) \<le> i" by simp
    show ?thesis
    proof (cases "matched st ! i")
      case True
      with Cons.prems(1) ne li have run: "bf_scan img is st = Inr st'" by simp
      from bf_invD(4) [OF inv] True i have "i \<in> visited xss" by simp
      with inv have "bf_inv fps {img} (insert i D) st xss"
        by (intro bf_inv_compared) simp_all
      from Cons.IH [OF run this rest] D show ?thesis by simp
    next
      case um: False
      from Cons.prems(1) ne li um obtain distance where
        dist: "bf_distance (hash (heap st ! img)) (hash (heap st ! i)) = Inr distance"
        by (auto split: sum.splits)
      from bf_invD(4) [OF inv] img_v have "img < length fps" by simp
      with i bf_invD(1) [OF inv] have "fps ! img = hash (heap st ! img)" "fps ! i = hash (heap st ! i)"
        by auto
      with dist have near_iff: "near fps img i \<longleftrightarrow> num_less distance 10"
        by (simp add: near_def bf_close_def)
      show ?thesis
      proof (cases "num_less distance 10")
        case True
        let ?st = "st\<lparr>heap := append_duplicate (heap st) img i, queue := queue st @ [i],
               matched := (matched st)[i := True], duplicate_count := duplicate_count st + 1\<rparr>"
        from Cons.prems(1) ne li um dist True have run: "bf_scan img is ?st = Inr st'" by simp
        from True near_iff have "near fps img i" by simp
        from bf_inv_attach [OF inv i um this] obtain yss where "bf_inv fps {img} (insert i D) ?st yss"
          by blast
        from Cons.IH [OF run this rest] D show ?thesis by simp
      next
        case False
        with Cons.prems(1) ne li um dist have run: "bf_scan img is st = Inr st'" by simp
        from False near_iff inv have "bf_inv fps {img} (insert i D) st xss"
          by (intro bf_inv_compared) simp_all
        from Cons.IH [OF run this rest] D show ?thesis by simp
      qed
    qed
  qed
qed

lemma bf_inv_pop:
  assumes "bf_inv fps {} {} st xss" "queue st = img # q"
  shows "bf_inv fps {img} {} (st\<lparr>queue := q\<rparr>) xss"
proof (rule bf_invI)
  from bf_invD(7) [OF assms(1)] assms(2)
  show "\<forall>a\<in>set (queue (st\<lparr>queue := q\<rparr>)) \<union> {img}. xss \<noteq> [] \<and> a \<in> set (last xss)" by simp
  from bf_invD(8) [OF assms(1)] assms(2)
  show "\<forall>u\<in>visited xss. u \<notin> set (queue (st\<lparr>queue := q\<rparr>)) \<union> {img} \<longrightarrow>
          (\<forall>v<length fps. near fps u v \<longrightarrow> v \<in> visited xss)" by simp
  from bf_invD(1) [OF assms(1)] show "map hash (heap (st\<lparr>queue := q\<rparr>)) = fps" by simp
  from bf_invD(2) [OF assms(1)] show "length (matched (st\<lparr>queue := q\<rparr>)) = length fps" by simp
  from bf_invD(3) [OF assms(1)]
  show "tree_inv (length (concat xss)) (heap (st\<lparr>queue := q\<rparr>)) (result (st\<lparr>queue := q\<rparr>)) xss"
    by simp
  from bf_invD(4) [OF assms(1)]
  show "visited xss = {i. i < length fps \<and> matched (st\<lparr>queue := q\<rparr>) ! i}" by simp
  from bf_invD(5) [OF assms(1)] show "\<forall>(p, c)\<in>edges (heap (st\<lparr>queue := q\<rparr>)). near fps p c" by simp
  from bf_invD(6) [OF assms(1)]
  show "\<forall>S\<in>set (map set (butlast xss)). \<forall>u\<in>S. \<forall>v<length fps. near fps u v \<longrightarrow> v \<in> S" .
  show "\<forall>u\<in>{img}. \<forall>v\<in>{}. near fps u v \<longrightarrow> v \<in> visited xss" by simp
qed

lemma bf_inv_scanned:
  assumes "bf_inv fps {img} {0..<length fps} st xss"
  shows "bf_inv fps {} {} st xss"
proof (rule bf_invI)
  show "\<forall>u\<in>visited xss. u \<notin> set (queue st) \<union> {} \<longrightarrow>
          (\<forall>v<length fps. near fps u v \<longrightarrow> v \<in> visited xss)"
  proof (intro ballI impI allI)
    fix u v
    assume u: "u \<in> visited xss" "u \<notin> set (queue st) \<union> {}" and v: "v < length fps" "near fps u v"
    show "v \<in> visited xss"
    proof (cases "u = img")
      case True
      with bf_invD(9) [OF assms] v show ?thesis by simp
    next
      case False
      with bf_invD(8) [OF assms] u v show ?thesis by simp
    qed
  qed
  from bf_invD(7) [OF assms] show "\<forall>q\<in>set (queue st) \<union> {}. xss \<noteq> [] \<and> q \<in> set (last xss)" by simp
  show "\<forall>u\<in>{}. \<forall>v\<in>{}. near fps u v \<longrightarrow> v \<in> visited xss" by simp
qed (rule bf_invD(1-6) [OF assms])+

lemma bf_drain_inv:
  assumes "bf_drain st = Inr st'" "bf_inv fps {} {} st xss"
  shows "\<exists>yss. bf_inv fps {} {} st' yss \<and> queue st' = []"
  using assms
proof (induction st arbitrary: xss rule: bf_drain.induct)
  case (1 st)
  show ?case
  proof (cases "queue st")
    case Nil
    with "1.prems" show ?thesis by (auto simp: bf_drain.simps [of st])
  next
    case (Cons img q)
    with "1.prems"(1) obtain st1 where scan: "bf_scan img [0..<length (heap st)] (st\<lparr>queue := q\<rparr>) = Inr st1"
      and drain: "bf_drain st1 = Inr st'"
      by (auto simp: bf_drain.simps [of st] split: sum.splits)
    from bf_invD(1) [OF "1.prems"(2)] have lh: "length (heap st) = length fps" by (metis length_map)
    from bf_inv_pop [OF "1.prems"(2) Cons] have "bf_inv fps {img} {} (st\<lparr>queue := q\<rparr>) xss" .
    from bf_scan_inv [OF scan this] lh obtain yss where "bf_inv fps {img} {0..<length fps} st1 yss"
      by auto
    then have "bf_inv fps {} {} st1 yss" by (rule bf_inv_scanned)
    from "1.IH" [OF Cons scan drain this] show ?thesis .
  qed
qed


lemma trees_closed:
  assumes inv: "bf_inv fps {} {} st xss" and q: "queue st = []"
  shows "\<forall>S\<in>set (map set xss). \<forall>u\<in>S. \<forall>v<length fps. near fps u v \<longrightarrow> v \<in> S"
proof (cases xss rule: rev_cases)
  case Nil
  then show ?thesis by simp
next
  case (snoc bs x)
  from bf_invD(6) [OF inv] snoc
  have old: "\<forall>S\<in>set (map set bs). \<forall>u\<in>S. \<forall>v<length fps. near fps u v \<longrightarrow> v \<in> S" by simp
  from bf_invD(3) [OF inv] have "distinct (concat xss)" by (simp add: tree_inv_def)
  with snoc have dj: "\<forall>b\<in>set bs. set b \<inter> set x = {}" by auto
  from snoc have vis: "visited xss = (\<Union>b\<in>set bs. set b) \<union> set x" by (auto simp: visited_def)
  have "v \<in> set x" if u: "u \<in> set x" and v: "v < length fps" "near fps u v" for u v
  proof (rule ccontr)
    assume nv: "v \<notin> set x"
    from u vis have "u \<in> visited xss" by simp
    with bf_invD(8) [OF inv] q v have "v \<in> visited xss" by simp
    with vis nv obtain b where b: "b \<in> set bs" "v \<in> set b" by auto
    from u vis bf_invD(4) [OF inv] have ul: "u < length fps" by auto
    from v(2) have "near fps v u" by (simp add: near_sym [of fps u v])
    with old b ul have "u \<in> set b" by auto
    with dj b(1) u show False by auto
  qed
  with old snoc show ?thesis by auto
qed

lemma bf_inv_root:
  assumes inv: "bf_inv fps {} {} st xss" and q: "queue st = []"
    and nm: "\<not> list_all (\<lambda>b. b) (matched st)"
  shows "bf_inv fps {} {}
           (st\<lparr>queue := queue st @ [first_unmatched (matched st)],
               result := result st @ [first_unmatched (matched st)],
               matched := (matched st)[first_unmatched (matched st) := True]\<rparr>)
           (xss @ [[first_unmatched (matched st)]])"
proof -
  let ?sp = "first_unmatched (matched st)"
  let ?st = "st\<lparr>queue := queue st @ [?sp], result := result st @ [?sp],
               matched := (matched st)[?sp := True]\<rparr>"
  note hm = bf_invD(1) [OF inv] and lm = bf_invD(2) [OF inv] and t = bf_invD(3) [OF inv]
    and vis = bf_invD(4) [OF inv] and ec = bf_invD(5) [OF inv] and cl = bf_invD(8) [OF inv]
  from first_unmatched [OF nm] lm have sp: "?sp < length fps" "\<not> matched st ! ?sp" by simp_all
  from hm have lh: "length (heap st) = length fps" by (metis length_map)
  from vis sp have "?sp \<notin> visited xss" by simp
  then have so: "?sp \<notin> set (concat xss)" unfolding visited_def .
  from sp lh have sh: "?sp < length (heap st)" by simp
  from tree_inv_add_root [OF t sh so]
  have 3: "tree_inv (length (concat (xss @ [[?sp]]))) (heap ?st) (result ?st) (xss @ [[?sp]])" by simp
  have vy: "visited (xss @ [[?sp]]) = insert ?sp (visited xss)" by (simp add: visited_def)
  have 4: "visited (xss @ [[?sp]]) = {j. j < length fps \<and> matched ?st ! j}"
    using vy vis sp lm by (auto simp: nth_list_update)
  have 6: "\<forall>S\<in>set (map set (butlast (xss @ [[?sp]]))). \<forall>u\<in>S. \<forall>v<length fps. near fps u v \<longrightarrow> v \<in> S"
    using trees_closed [OF inv q] by simp
  have 7: "\<forall>a\<in>set (queue ?st) \<union> {}. xss @ [[?sp]] \<noteq> [] \<and> a \<in> set (last (xss @ [[?sp]]))"
    using q by simp
  have 8: "\<forall>u\<in>visited (xss @ [[?sp]]). u \<notin> set (queue ?st) \<union> {} \<longrightarrow>
             (\<forall>v<length fps. near fps u v \<longrightarrow> v \<in> visited (xss @ [[?sp]]))"
    using cl q vy by auto
  show ?thesis
  proof (rule bf_invI)
    from hm show "map hash (heap ?st) = fps" by simp
    from lm show "length (matched ?st) = length fps" by simp
    from ec show "\<forall>(p, c)\<in>edges (heap ?st). near fps p c" by simp
    show "\<forall>u\<in>{}. \<forall>v\<in>{}. near fps u v \<longrightarrow> v \<in> visited (xss @ [[?sp]])" by simp
  qed (rule 3 4 6 7 8)+
qed

lemma bf_while_inv:
  assumes "bf_while st = Inr st'" "bf_inv fps {} {} st xss" "queue st = []"
  shows "\<exists>yss. bf_inv fps {} {} st' yss \<and> queue st' = [] \<and> list_all (\<lambda>b. b) (matched st')"
  using assms
proof (induction st arbitrary: xss rule: bf_while.induct)
  case (1 st)
  show ?case
  proof (cases "list_all (\<lambda>b. b) (matched st)")
    case True
    with "1.prems" show ?thesis by (auto simp: bf_while.simps [of st])
  next
    case False
    let ?sp = "first_unmatched (matched st)"
    let ?st = "st\<lparr>queue := queue st @ [?sp], result := result st @ [?sp],
               matched := (matched st)[?sp := True]\<rparr>"
    from "1.prems"(1) False obtain st2 where drain: "bf_drain ?st = Inr st2"
      and rest: "bf_while st2 = Inr st'"
      by (auto simp: bf_while.simps [of st] Let_def split: sum.splits)
    from bf_inv_root [OF "1.prems"(2,3) False] have "bf_inv fps {} {} ?st (xss @ [[?sp]])" .
    from bf_drain_inv [OF drain this] obtain yss where inv2: "bf_inv fps {} {} st2 yss"
      and q2: "queue st2 = []"
      by blast
    from "1.IH" [OF False refl refl drain rest inv2 q2] show ?thesis .
  qed
qed


lemma bf_scan_data:
  "bf_scan img is st = Inr st' \<Longrightarrow> map data (heap st') = map data (heap st) \<and> result st' = result st"
proof (induction "is" arbitrary: st)
  case Nil
  then show ?case by simp
next
  case (Cons i "is")
  show ?case
  proof (cases "img = i \<or> matched st ! i")
    case True
    with Cons.prems have "bf_scan img is st = Inr st'" by (auto split: if_splits)
    then show ?thesis by (rule Cons.IH)
  next
    case False
    with Cons.prems obtain distance where
      dist: "bf_distance (hash (heap st ! img)) (hash (heap st ! i)) = Inr distance"
      by (auto split: sum.splits if_splits)
    show ?thesis
    proof (cases "num_less distance 10")
      case True
      let ?st = "st\<lparr>heap := append_duplicate (heap st) img i, queue := queue st @ [i],
               matched := (matched st)[i := True], duplicate_count := duplicate_count st + 1\<rparr>"
      from Cons.prems False dist True have "bf_scan img is ?st = Inr st'" by (auto split: if_splits)
      from Cons.IH [OF this] show ?thesis by simp
    next
      case nl: False
      with Cons.prems False dist have "bf_scan img is st = Inr st'" by (auto split: if_splits)
      then show ?thesis by (rule Cons.IH)
    qed
  qed
qed

lemma bf_drain_data:
  "bf_drain st = Inr st' \<Longrightarrow> map data (heap st') = map data (heap st)"
proof (induction st rule: bf_drain.induct)
  case (1 st)
  show ?case
  proof (cases "queue st")
    case Nil
    with "1.prems" show ?thesis by (simp add: bf_drain.simps [of st])
  next
    case (Cons img q)
    with "1.prems" obtain st1 where scan: "bf_scan img [0..<length (heap st)] (st\<lparr>queue := q\<rparr>) = Inr st1"
      and drain: "bf_drain st1 = Inr st'"
      by (auto simp: bf_drain.simps [of st] split: sum.splits)
    from "1.IH" [OF Cons scan drain] bf_scan_data [OF scan] show ?thesis by simp
  qed
qed

lemma bf_while_data:
  "bf_while st = Inr st' \<Longrightarrow> map data (heap st') = map data (heap st)"
proof (induction st rule: bf_while.induct)
  case (1 st)
  show ?case
  proof (cases "list_all (\<lambda>b. b) (matched st)")
    case True
    with "1.prems" show ?thesis by (simp add: bf_while.simps [of st])
  next
    case False
    let ?sp = "first_unmatched (matched st)"
    let ?st = "st\<lparr>queue := queue st @ [?sp], result := result st @ [?sp],
               matched := (matched st)[?sp := True]\<rparr>"
    from "1.prems"(1) False obtain st2 where drain: "bf_drain ?st = Inr st2"
      and rest: "bf_while st2 = Inr st'"
      by (auto simp: bf_while.simps [of st] Let_def split: sum.splits)
    from "1.IH" [OF False refl refl drain rest] bf_drain_data [OF drain] show ?thesis by simp
  qed
qed

lemma hash_all_heap:
  assumes "hash_all hf imgs acc = Inr h" "hashed_by hf acc" "\<forall>x\<in>set acc. duplicates x = []"
  shows "map data h = map data acc @ imgs \<and> hashed_by hf h \<and> (\<forall>x\<in>set h. duplicates x = [])"
  using assms
proof (induction imgs arbitrary: acc)
  case Nil
  then show ?case by simp
next
  case (Cons img imgs)
  from Cons.prems(1) obtain fp where fp: "hf img = Inr fp"
    and rest: "hash_all hf imgs (acc @ [\<lparr>data = img, hash = fp, duplicates = []\<rparr>]) = Inr h"
    by (auto split: sum.splits)
  from Cons.prems(2) fp have hb: "hashed_by hf (acc @ [\<lparr>data = img, hash = fp, duplicates = []\<rparr>])"
    by (rule hashed_by_new)
  from Cons.prems(3) have lv: "\<forall>x\<in>set (acc @ [\<lparr>data = img, hash = fp, duplicates = []\<rparr>]). duplicates x = []"
    by simp
  from Cons.IH [OF rest hb lv] show ?case by simp
qed

definition bf_init :: "'a heap \<Rightarrow> 'a bf_state" where
  "bf_init hashed_images =
     \<lparr>heap = hashed_images, result = [], duplicate_count = 0,
      matched = replicate (length hashed_images) False, queue = []\<rparr>"

lemma bf_inv_init:
  assumes "\<forall>x\<in>set h. duplicates x = []"
  shows "bf_inv (map hash h) {} {} (bf_init h) []"
proof (rule bf_invI)
  from assms have c: "concat (map duplicates h) = []" by simp
  from assms have "edges h = {}" by (auto simp: edges_def)
  with c assms show "tree_inv (length (concat [])) (heap (bf_init h)) (result (bf_init h)) []"
    by (simp add: tree_inv_def bf_init_def acyclic_def)
  from \<open>edges h = {}\<close> show "\<forall>(p, c)\<in>edges (heap (bf_init h)). near (map hash h) p c"
    by (simp add: bf_init_def)
  show "visited [] = {i. i < length (map hash h) \<and> matched (bf_init h) ! i}"
    by (auto simp: visited_def bf_init_def)
qed (simp_all add: bf_init_def visited_def)


lemma distinct_card_length:
  assumes "distinct xs" "set xs = {i. i < n}"
  shows "length xs = n"
proof -
  from assms(1) have "length xs = card (set xs)" by (simp add: distinct_card)
  with assms(2) show ?thesis by simp
qed

lemma bf_final:
  assumes h0: "hash_all hf imgs [] = Inr h" and run: "bf_while (bf_init h) = Inr st"
  shows "\<exists>xss. (\<forall>limit. length imgs \<le> limit \<longrightarrow>
              bf_deduplicate limit hf imgs = Inr (map (map (\<lambda>a. imgs ! a)) xss)) \<and>
           (\<forall>limit groups. bf_deduplicate limit hf imgs = Inr groups \<longrightarrow>
              groups = map (map (\<lambda>a. imgs ! a)) xss) \<and>
           bf_inv (map hash h) {} {} st xss \<and> queue st = [] \<and>
           visited xss = {i. i < length imgs} \<and> map data (heap st) = imgs \<and>
           hashed_by hf (heap st)"
proof -
  from hash_all_heap [OF h0] have dat: "map data h = imgs" and hb: "hashed_by hf h"
    and lv: "\<forall>x\<in>set h. duplicates x = []"
    by (simp_all add: hashed_by_def)
  from dat have lh: "length h = length imgs" by (metis length_map)
  from bf_while_inv [OF run bf_inv_init [OF lv]] obtain xss where
    inv: "bf_inv (map hash h) {} {} st xss" and q: "queue st = []"
    and am: "list_all (\<lambda>b. b) (matched st)"
    by (auto simp: bf_init_def)
  from bf_while_data [OF run] dat have dat': "map data (heap st) = imgs" by (simp add: bf_init_def)
  from bf_invD(1) [OF inv] have hm: "map hash (heap st) = map hash h" .
  then have lh': "length (heap st) = length imgs" using lh by (metis length_map)
  from hb hm dat dat' have hb': "hashed_by hf (heap st)"
    using hashed_by_maps [of "heap st" h hf] by simp
  from am bf_invD(2) [OF inv] have "\<forall>i<length imgs. matched st ! i"
    using lh by (simp add: list_all_length)
  with bf_invD(4) [OF inv] lh have vis: "visited xss = {i. i < length imgs}" by auto
  note t = bf_invD(3) [OF inv]
  from t have dc: "distinct (concat xss)" by (simp add: tree_inv_def)
  from vis have "set (concat xss) = {i. i < length imgs}" unfolding visited_def .
  with dc have lc: "length (concat xss) = length imgs" by (rule distinct_card_length)
  with t lh' have n: "nodes_all (length imgs) (heap st) (result st) = Some xss"
    and v: "\<forall>a\<in>set (concat xss). a < length (heap st)"
    by (simp_all add: tree_inv_def del: set_concat)
  from h0 run have r: "bf_deduplicate limit hf imgs = flatten_all limit (heap st) (result st)" for limit
    by (simp add: bf_deduplicate_def bf_init_def lh)
  note f = flatten_all_groups [OF n dat' v]
  have 1: "\<forall>limit. length imgs \<le> limit \<longrightarrow>
              bf_deduplicate limit hf imgs = Inr (map (map (\<lambda>a. imgs ! a)) xss)"
    using f(1) r by simp
  have 2: "\<forall>limit groups. bf_deduplicate limit hf imgs = Inr groups \<longrightarrow>
              groups = map (map (\<lambda>a. imgs ! a)) xss"
    using f(2) r by simp
  from 1 2 inv q vis dat' hb' show ?thesis by blast
qed

section \<open>When the exact clusterer returns\<close>

definition uniform :: "fingerprint list \<Rightarrow> bool" where
  "uniform fps \<longleftrightarrow> (\<forall>a\<in>set fps. \<forall>b\<in>set fps. length a = length b)"

lemma hamming_returns: "length u = length v \<Longrightarrow> \<exists>x. hamming u v = Inr x"
  by (simp add: hamming_def)

lemma bf_distance_returns: "length u = length v \<Longrightarrow> \<exists>x. bf_distance u v = Inr x"
  by (simp add: bf_distance_def hamming_def)

lemma bf_scan_returns:
  assumes "map hash (heap st) = fps" "length (matched st) = length fps" "\<forall>i\<in>set is. i < length fps"
    and "img < length fps" "uniform fps"
  shows "\<exists>st'. bf_scan img is st = Inr st'"
  using assms(1-3)
proof (induction "is" arbitrary: st)
  case Nil
  then show ?case by simp
next
  case (Cons i "is")
  from Cons.prems(3) have i: "i < length fps" and rest: "\<forall>i\<in>set is. i < length fps" by auto
  from Cons.prems(1) i assms(4) have f: "hash (heap st ! img) = fps ! img" "hash (heap st ! i) = fps ! i"
    by (metis length_map nth_map)+
  from assms(4,5) i have "length (fps ! img) = length (fps ! i)" by (simp add: uniform_def)
  with f obtain distance where dist: "bf_distance (hash (heap st ! img)) (hash (heap st ! i)) = Inr distance"
    using bf_distance_returns by metis
  let ?st = "st\<lparr>heap := append_duplicate (heap st) img i, queue := queue st @ [i],
               matched := (matched st)[i := True], duplicate_count := duplicate_count st + 1\<rparr>"
  from Cons.prems(1,2) have "map hash (heap ?st) = fps" "length (matched ?st) = length fps" by simp_all
  from Cons.IH [OF this rest] obtain st2 where a: "bf_scan img is ?st = Inr st2" by blast
  from Cons.IH [OF Cons.prems(1,2) rest] obtain st1 where b: "bf_scan img is st = Inr st1" by blast
  from i Cons.prems(2) have li: "\<not> length (matched st) \<le> i" by simp
  show ?case
  proof (cases "img = i \<or> matched st ! i")
    case True
    with b li show ?thesis by auto
  next
    case False
    with a b li dist show ?thesis by (cases "num_less distance 10") simp_all
  qed
qed

lemma bf_drain_returns:
  assumes "bf_inv fps {} {} st xss" "uniform fps"
  shows "\<exists>st'. bf_drain st = Inr st'"
  using assms(1)
proof (induction st arbitrary: xss rule: bf_drain.induct)
  case (1 st)
  show ?case
  proof (cases "queue st")
    case Nil
    then show ?thesis by (simp add: bf_drain.simps [of st])
  next
    case (Cons img q)
    note inv = "1.prems"
    from bf_invD(1) [OF inv] have lh: "length (heap st) = length fps" by (metis length_map)
    from bf_invD(7) [OF inv] Cons have "xss \<noteq> []" "img \<in> set (last xss)" by simp_all
    then have "img \<in> visited xss" by (rule last_in_visited)
    with bf_invD(4) [OF inv] have il: "img < length fps" by simp
    from bf_invD(1,2) [OF inv] have "map hash (heap (st\<lparr>queue := q\<rparr>)) = fps"
      "length (matched (st\<lparr>queue := q\<rparr>)) = length fps"
      by simp_all
    from bf_scan_returns [OF this _ il assms(2), of "[0..<length (heap st)]"] lh obtain st1
      where scan: "bf_scan img [0..<length (heap st)] (st\<lparr>queue := q\<rparr>) = Inr st1"
      by auto
    from bf_inv_pop [OF inv Cons] have "bf_inv fps {img} {} (st\<lparr>queue := q\<rparr>) xss" .
    from bf_scan_inv [OF scan this] lh obtain yss where "bf_inv fps {img} {0..<length fps} st1 yss"
      by auto
    then have "bf_inv fps {} {} st1 yss" by (rule bf_inv_scanned)
    from "1.IH" [OF Cons scan this] obtain st' where "bf_drain st1 = Inr st'" by blast
    with Cons scan show ?thesis by (simp add: bf_drain.simps [of st])
  qed
qed

lemma bf_while_returns:
  assumes "bf_inv fps {} {} st xss" "queue st = []" "uniform fps"
  shows "\<exists>st'. bf_while st = Inr st'"
  using assms(1,2)
proof (induction st arbitrary: xss rule: bf_while.induct)
  case (1 st)
  show ?case
  proof (cases "list_all (\<lambda>b. b) (matched st)")
    case True
    then show ?thesis by (simp add: bf_while.simps [of st])
  next
    case False
    let ?sp = "first_unmatched (matched st)"
    let ?st = "st\<lparr>queue := queue st @ [?sp], result := result st @ [?sp],
               matched := (matched st)[?sp := True]\<rparr>"
    from bf_inv_root [OF "1.prems" False] have inv1: "bf_inv fps {} {} ?st (xss @ [[?sp]])" .
    from bf_drain_returns [OF inv1 assms(3)] obtain st2 where drain: "bf_drain ?st = Inr st2" by blast
    from bf_drain_inv [OF drain inv1] obtain yss where inv2: "bf_inv fps {} {} st2 yss"
      and q2: "queue st2 = []"
      by blast
    from "1.IH" [OF False refl refl drain inv2 q2] obtain st' where "bf_while st2 = Inr st'" by blast
    with False drain show ?thesis by (simp add: bf_while.simps [of st] Let_def)
  qed
qed

lemma hash_all_returns:
  assumes "\<forall>img\<in>set imgs. \<exists>fp. hf img = Inr fp"
  shows "\<exists>h. hash_all hf imgs acc = Inr h \<and> map hash h = map hash acc @ map (\<lambda>img. projr (hf img)) imgs"
  using assms
proof (induction imgs arbitrary: acc)
  case Nil
  then show ?case by simp
next
  case (Cons img imgs)
  from Cons.prems obtain fp where fp: "hf img = Inr fp" by auto
  from Cons.prems have "\<forall>img\<in>set imgs. \<exists>fp. hf img = Inr fp" by simp
  from Cons.IH [OF this, of "acc @ [\<lparr>data = img, hash = fp, duplicates = []\<rparr>]"] fp
  show ?case by simp
qed

lemma hash_all_hashes:
  assumes "hash_all hf imgs acc = Inr h"
  shows "map hash h = map hash acc @ map (\<lambda>img. projr (hf img)) imgs \<and> (\<forall>img\<in>set imgs. \<exists>fp. hf img = Inr fp)"
  using assms
proof (induction imgs arbitrary: acc)
  case Nil
  then show ?case by simp
next
  case (Cons img imgs)
  from Cons.prems obtain fp where fp: "hf img = Inr fp"
    and rest: "hash_all hf imgs (acc @ [\<lparr>data = img, hash = fp, duplicates = []\<rparr>]) = Inr h"
    by (auto split: sum.splits)
  from Cons.IH [OF rest] fp show ?case by simp
qed

text \<open>The fingerprints of the images, where the hash function returns them.\<close>

definition fingerprints :: "('a \<Rightarrow> error + fingerprint) \<Rightarrow> 'a list \<Rightarrow> fingerprint list" where
  "fingerprints hf imgs = map (\<lambda>img. projr (hf img)) imgs"

lemma bf_returns:
  assumes "\<forall>img\<in>set imgs. \<exists>fp. hf img = Inr fp" "uniform (fingerprints hf imgs)"
  shows "\<exists>h st. hash_all hf imgs [] = Inr h \<and> map hash h = fingerprints hf imgs \<and>
           bf_while (bf_init h) = Inr st"
proof -
  from hash_all_returns [OF assms(1), of "[]"] obtain h where h: "hash_all hf imgs [] = Inr h"
    and fp: "map hash h = fingerprints hf imgs"
    by (auto simp: fingerprints_def)
  from hash_all_heap [OF h] have "\<forall>x\<in>set h. duplicates x = []" by (simp add: hashed_by_def)
  from bf_inv_init [OF this] have inv: "bf_inv (map hash h) {} {} (bf_init h) []" .
  from bf_while_returns [OF inv] assms(2) fp obtain st where "bf_while (bf_init h) = Inr st"
    by (auto simp: bf_init_def)
  with h fp show ?thesis by blast
qed


section \<open>The groups of the exact clusterer are the connected components\<close>

definition component :: "(nat \<times> nat) set \<Rightarrow> nat \<Rightarrow> nat set" where
  "component r u = {v. (u, v) \<in> r\<^sup>*}"

definition bf_related :: "fingerprint list \<Rightarrow> (nat \<times> nat) set" where
  "bf_related fps = {(u, v). u < length fps \<and> v < length fps \<and> near fps u v}"

text \<open>
  The relation of the claims: two positions of the input are related when the Hamming
  distance of their fingerprints, the number of differing bits, is below 10.
\<close>

definition within_threshold :: "fingerprint list \<Rightarrow> (nat \<times> nat) set" where
  "within_threshold fps = {(u, v). u < length fps \<and> v < length fps \<and> differing (fps ! u) (fps ! v) < 10}"

lemma sym_bf_related: "sym (bf_related fps)"
  by (auto simp: sym_def bf_related_def near_sym [of fps])

lemma component_sym_eq:
  assumes "sym r" "i \<in> component r u"
  shows "component r i = component r u"
proof -
  from assms(2) have ui: "(u, i) \<in> r\<^sup>*" by (simp add: component_def)
  from sym_rtrancl [OF assms(1)] ui have iu: "(i, u) \<in> r\<^sup>*" by (simp add: sym_def)
  show ?thesis
  proof (rule set_eqI)
    fix v
    show "v \<in> component r i \<longleftrightarrow> v \<in> component r u"
      using ui iu by (auto simp: component_def intro: rtrancl_trans)
  qed
qed

lemma bf_groups_components:
  assumes inv: "bf_inv fps {} {} st xss" and q: "queue st = []"
    and vis: "visited xss = {i. i < length fps}"
  shows "\<forall>xs\<in>set xss. xs \<noteq> [] \<and> set xs = component (bf_related fps) (hd xs)"
proof
  fix xs
  assume xs: "xs \<in> set xss"
  let ?h = "heap st"
  let ?R = "bf_related fps"
  note t = bf_invD(3) [OF inv]
  from bf_invD(1) [OF inv] have lh: "length ?h = length fps" by (metis length_map)
  from xs have sub: "set xs \<subseteq> visited xss" by (auto simp: visited_def)
  with vis lh have val: "\<forall>a\<in>set xs. a < length ?h" by auto
  from xs obtain k where k: "k < length xss" "xss ! k = xs" by (auto simp: in_set_conv_nth)
  from t have na: "nodes_all (length (concat xss)) ?h (result st) = Some xss" by (simp add: tree_inv_def)
  from nodes_all_length [OF na] k have kr: "k < length (result st)" by simp
  from nodes_all_nth [OF na kr] k have n: "nodes (length (concat xss)) ?h (result st ! k) = Some xs"
    by simp
  from nodes_hd [OF n] obtain ys where hd: "xs = (result st ! k) # ys" by blast
  then have ne: "xs \<noteq> []" and h: "hd xs = result st ! k" by simp_all
  have e: "edges ?h \<subseteq> ?R"
  proof
    fix e
    assume e: "e \<in> edges ?h"
    obtain p c where pc: "e = (p, c)" by (cases e)
    from e pc have p: "p < length ?h" by (simp add: edges_def)
    from edges_visited [OF t] e pc have "c \<in> visited xss" unfolding visited_def by blast
    with vis have c: "c < length fps" by simp
    from bf_invD(5) [OF inv] e pc have "near fps p c" by auto
    with p c lh pc show "e \<in> ?R" by (simp add: bf_related_def)
  qed
  have 1: "set xs \<subseteq> component ?R (hd xs)"
  proof
    fix x
    assume "x \<in> set xs"
    with nodes_reachable [OF n val] h have "(hd xs, x) \<in> (edges ?h)\<^sup>*" by simp
    with rtrancl_mono [OF e] show "x \<in> component ?R (hd xs)" by (auto simp: component_def)
  qed
  have 2: "component ?R (hd xs) \<subseteq> set xs"
  proof
    fix x
    assume "x \<in> component ?R (hd xs)"
    then have "(hd xs, x) \<in> ?R\<^sup>*" by (simp add: component_def)
    then show "x \<in> set xs"
    proof (induction rule: rtrancl_induct)
      case base
      from ne show ?case by simp
    next
      case (step y z)
      from step.hyps(2) have z: "z < length fps" "near fps y z" by (simp_all add: bf_related_def)
      from trees_closed [OF inv q] xs have "\<forall>u\<in>set xs. \<forall>v<length fps. near fps u v \<longrightarrow> v \<in> set xs"
        by simp
      with step.IH z show ?case by blast
    qed
  qed
  from ne 1 2 show "xs \<noteq> [] \<and> set xs = component ?R (hd xs)" by blast
qed

lemma groups_are_components:
  assumes g: "\<forall>xs\<in>set xss. xs \<noteq> [] \<and> set xs = component r (hd xs)"
    and vis: "visited xss = {i. i < n}" and s: "sym r"
  shows "set ` set xss = component r ` {i. i < n}"
proof (intro set_eqI iffI)
  fix S
  assume "S \<in> set ` set xss"
  then obtain xs where xs: "xs \<in> set xss" "S = set xs" by auto
  with g have ne: "xs \<noteq> []" and c: "set xs = component r (hd xs)" by simp_all
  from ne have "hd xs \<in> set xs" by simp
  with xs(1) have "hd xs \<in> visited xss" by (auto simp: visited_def)
  with vis c xs(2) show "S \<in> component r ` {i. i < n}" by auto
next
  fix S
  assume "S \<in> component r ` {i. i < n}"
  then obtain i where i: "i < n" "S = component r i" by auto
  with vis have "i \<in> visited xss" by simp
  then obtain xs where xs: "xs \<in> set xss" "i \<in> set xs" by (auto simp: visited_def)
  with g have "i \<in> component r (hd xs)" "set xs = component r (hd xs)" by auto
  with component_sym_eq [OF s] i(2) have "S = set xs" by simp
  with xs(1) show "S \<in> set ` set xss" by simp
qed


section \<open>When the approximate clusterer returns\<close>

lemma lsh_distance_returns: "length u = length v \<Longrightarrow> \<exists>x. lsh_distance d u v = Inr x"
  by (simp add: lsh_distance_def hamming_def)

lemma lsh_scan_returns:
  assumes "\<forall>a\<in>set l. a < length (heap st)" "cur < length (heap st)" "uniform (map hash (heap st))"
  shows "\<exists>r. lsh_scan d cur l (u, st) = Inr r"
  using assms
proof (induction l arbitrary: u st)
  case Nil
  then show ?case by simp
next
  case (Cons pd l)
  from Cons.prems(1) have pd: "pd < length (heap st)" and rest: "\<forall>a\<in>set l. a < length (heap st)"
    by auto
  from pd Cons.prems(2,3) have "length (hash (heap st ! cur)) = length (hash (heap st ! pd))"
    by (simp add: uniform_def)
  then obtain distance where dist: "lsh_distance d (hash (heap st ! cur)) (hash (heap st ! pd)) = Inr distance"
    using lsh_distance_returns by blast
  let ?st = "st\<lparr>heap := append_duplicate (heap st) pd cur, duplicate_count := duplicate_count st + 1\<rparr>"
  from rest Cons.prems(2,3) have "\<forall>a\<in>set l. a < length (heap ?st)" "cur < length (heap ?st)"
    "uniform (map hash (heap ?st))"
    by simp_all
  from Cons.IH [OF this] obtain r2 where a: "lsh_scan d cur l (False, ?st) = Inr r2" by blast
  from Cons.IH [OF rest Cons.prems(2,3)] obtain r1 where b: "lsh_scan d cur l (u, st) = Inr r1" by blast
  show ?case
  proof (cases "\<not> u \<or> cur = pd")
    case True
    with b show ?thesis by auto
  next
    case False
    with a b dist show ?thesis by (cases "num_less distance 10") simp_all
  qed
qed

lemma band_key_returns:
  "0 < d \<Longrightarrow> \<forall>p\<in>set g. p < length a \<Longrightarrow> \<exists>key. band_key d a g = Inr key"
  by (simp add: band_key_def fancy_index_def list_all_iff)

lemma lsh_bands_returns:
  assumes "lsh_mid d cur u st xss" "uniform (map hash (heap st))"
    and "\<forall>g\<in>set gs. \<forall>p\<in>set g. p < length (hash (heap st ! cur))"
    and d: "0 < d"
  shows "\<exists>r. lsh_bands d cur gs (u, st) = Inr r"
  using assms(1-3)
proof (induction gs arbitrary: u st xss)
  case Nil
  then show ?case by simp
next
  case (Cons g gs)
  let ?l = "\<lambda>g_x. case hash_table st g_x of None \<Rightarrow> [] | Some b \<Rightarrow> b"
  from Cons.prems(3) band_key_returns [OF d, of g "hash (heap st ! cur)"] obtain g_x
    where key: "band_key d (hash (heap st ! cur)) g = Inr g_x"
    by auto
  from Cons.prems(1) have len: "length (heap st) = Suc cur" by (simp add: lsh_mid_def)
  have l: "\<forall>a\<in>set (?l g_x). a \<le> cur"
  proof (cases "hash_table st g_x")
    case None
    then show ?thesis by simp
  next
    case (Some b)
    with Cons.prems(1) have "\<forall>a\<in>set b. a \<le> cur" unfolding lsh_mid_def by blast
    with Some show ?thesis by simp
  qed
  with len have "\<forall>a\<in>set (?l g_x). a < length (heap st)" by (simp add: less_Suc_eq_le)
  from lsh_scan_returns [OF this _ Cons.prems(2), of cur d u] len obtain u1 st1
    where scan: "lsh_scan d cur (?l g_x) (u, st) = Inr (u1, st1)"
    by fastforce
  from lsh_scan_mid [OF scan Cons.prems(1) l] obtain yss where mid1: "lsh_mid d cur u1 st1 yss"
    by blast
  let ?st = "st1\<lparr>hash_table := (hash_table st1)(g_x \<mapsto> ?l g_x @ [cur])\<rparr>"
  from mid1 l have mid2: "lsh_mid d cur u1 ?st yss" by (intro lsh_mid_table) auto
  from lsh_scan_fields [OF scan] have hs: "map hash (heap ?st) = map hash (heap st)"
    and ls: "length (heap st1) = length (heap st)"
    by simp_all
  from hs len ls have "hash (heap ?st ! cur) = hash (heap st ! cur)"
    by (metis lessI nth_map length_map)
  with Cons.prems(3) have pos: "\<forall>g\<in>set gs. \<forall>p\<in>set g. p < length (hash (heap ?st ! cur))" by simp
  from hs Cons.prems(2) have "uniform (map hash (heap ?st))" by simp
  from Cons.IH [OF mid2 this pos] obtain r where "lsh_bands d cur gs (u1, ?st) = Inr r" by blast
  with key scan show ?case by (simp add: Let_def)
qed

lemma lsh_images_returns:
  assumes "lsh_inv (lsh_d self) st xss"
    and "\<forall>img\<in>set imgs. \<exists>fp. hash_func self img = Inr fp"
    and "uniform (map hash (heap st) @ fingerprints (hash_func self) imgs)"
    and "\<forall>fp\<in>set (fingerprints (hash_func self) imgs). \<forall>g\<in>set (projections self). \<forall>p\<in>set g. p < length fp"
    and d: "0 < lsh_d self"
  shows "\<exists>st'. lsh_images self imgs st = Inr st'"
  using assms(1-4)
proof (induction imgs arbitrary: st xss)
  case Nil
  then show ?case by simp
next
  case (Cons img imgs)
  let ?d = "lsh_d self"
  let ?cur = "length (heap st)"
  from Cons.prems(2) obtain fp where fp: "hash_func self img = Inr fp" by auto
  let ?new = "\<lparr>data = img, hash = fp, duplicates = []\<rparr>"
  let ?st1 = "st\<lparr>heap := heap st @ [?new]\<rparr>"
  from fp have fps: "fingerprints (hash_func self) (img # imgs) = fp # fingerprints (hash_func self) imgs"
    by (simp add: fingerprints_def)
  have mid: "lsh_mid ?d ?cur True ?st1 xss"
    using Cons.prems(1) by (rule lsh_inv_new) simp
  from Cons.prems(3) fps have u1: "uniform (map hash (heap ?st1))" by (auto simp: uniform_def)
  from Cons.prems(4) fps
  have pos: "\<forall>g\<in>set (projections self). \<forall>p\<in>set g. p < length (hash (heap ?st1 ! ?cur))" by simp
  from lsh_bands_returns [OF mid u1 pos d] obtain unique st2
    where bands: "lsh_bands ?d ?cur (projections self) (True, ?st1) = Inr (unique, st2)"
    by fastforce
  let ?st3 = "if unique then st2\<lparr>result := result st2 @ [?cur]\<rparr> else st2"
  from lsh_bands_mid [OF bands mid] obtain yss where mid2: "lsh_mid ?d ?cur unique st2 yss"
    by blast
  have "\<exists>zss. lsh_inv ?d ?st3 zss"
  proof (cases unique)
    case False
    with mid2 have "lsh_inv ?d ?st3 yss" by (simp add: lsh_mid_done)
    then show ?thesis ..
  next
    case True
    with mid2 have "lsh_inv ?d ?st3 (yss @ [[?cur]])" by (simp add: lsh_mid_root)
    then show ?thesis ..
  qed
  then obtain zss where inv3: "lsh_inv ?d ?st3 zss" ..
  from lsh_bands_fields [OF bands] have "map hash (heap ?st3) = map hash (heap st) @ [fp]" by simp
  with Cons.prems(3) fps
  have u3: "uniform (map hash (heap ?st3) @ fingerprints (hash_func self) imgs)" by simp
  from Cons.prems(2) have h3: "\<forall>img\<in>set imgs. \<exists>fp. hash_func self img = Inr fp" by simp
  from Cons.prems(4) fps
  have p3: "\<forall>fp\<in>set (fingerprints (hash_func self) imgs). \<forall>g\<in>set (projections self). \<forall>p\<in>set g. p < length fp"
    by simp
  from Cons.IH [OF inv3 h3 u3 p3] obtain st' where "lsh_images self imgs ?st3 = Inr st'" by blast
  with fp bands show ?case by (simp add: Let_def)
qed

section \<open>The empty input\<close>

text \<open>
  Claim C10. On the empty sequence of images both clusterers return the empty list of
  groups and raise nothing: no loop body is entered, and in the exact clusterer
  \<open>matched.all()\<close> holds of the empty array.
\<close>

theorem empty_input:
  "lsh_deduplicate recursion_limit self [] = Inr [] \<and> bf_deduplicate recursion_limit hf [] = Inr []"
  by (simp add: lsh_deduplicate_def bf_deduplicate_def bf_while.simps)

section \<open>The fingerprint of dhash\<close>

lemma nth_concat_rows:
  "\<forall>xs\<in>set xss. length xs = m \<Longrightarrow> i < length xss \<Longrightarrow> j < m \<Longrightarrow> concat xss ! (i * m + j) = xss ! i ! j"
proof (induction xss arbitrary: i)
  case Nil
  then show ?case by simp
next
  case (Cons xs xss)
  show ?case
  proof (cases i)
    case 0
    with Cons.prems show ?thesis by (simp add: nth_append)
  next
    case (Suc i')
    with Cons.prems have "concat xss ! (i' * m + j) = xss ! i' ! j"
      by (intro Cons.IH) auto
    with Suc Cons.prems show ?thesis by (simp add: nth_append)
  qed
qed

lemma length_concat_rows:
  "\<forall>xs\<in>set xss. length xs = m \<Longrightarrow> length (concat xss) = length xss * m"
  by (induction xss) auto

lemma diff_grid_shape:
  assumes "length resized = s" "\<forall>row\<in>set resized. length row = s + 1"
  shows "length (diff_grid resized) = s" "\<forall>xs\<in>set (diff_grid resized). length xs = s"
  using assms by (auto simp: diff_grid_def)

lemma diff_grid_nth:
  assumes "length resized = s" "\<forall>row\<in>set resized. length row = s + 1" "i < s" "j < s"
  shows "diff_grid resized ! i ! j = (resized ! i ! (j + 1) > resized ! i ! j)"
proof -
  from assms have len: "length (resized ! i) = s + 1" by auto
  with assms show ?thesis
    by (simp add: diff_grid_def nth_tl nth_butlast)
qed

text \<open>
  Claim C9. When the image converts to a grayscale grid and \<open>cv2.resize\<close> returns
  its \<open>s\<close> rows of \<open>s + 1\<close> samples, \<open>dhash\<close> returns a fingerprint of
  exactly \<open>s * s\<close> bits, each 0 or 1, and the bit of row \<open>i\<close> and column \<open>j\<close>,
  at position \<open>i * s + j\<close>, is 1 exactly when the sample at column \<open>j + 1\<close> of that
  row is strictly greater than the sample at column \<open>j\<close>.
\<close>

theorem dhash_bits:
  assumes "cvtColor img = Inr gray"
    and "resize gray (s + 1, s) = Inr resized"
    and "length resized = s"
    and "\<forall>row\<in>set resized. length row = s + 1"
  shows "\<exists>fp. dhash cvtColor resize img s = Inr fp \<and> length fp = s * s \<and> set fp \<subseteq> {0, 1} \<and>
           (\<forall>i<s. \<forall>j<s. fp ! (i * s + j) = (if resized ! i ! (j + 1) > resized ! i ! j then 1 else 0))"
proof -
  let ?fp = "map (\<lambda>i. if i then 1 else 0) (concat (diff_grid resized)) :: nat list"
  have d: "dhash cvtColor resize img s = Inr ?fp"
    using assms(1,2) by (simp add: dhash_def)
  have l: "length ?fp = s * s"
    using diff_grid_shape [OF assms(3,4)] length_concat_rows [of "diff_grid resized" s] by simp
  have b: "set ?fp \<subseteq> {0, 1}" by auto
  have n: "?fp ! (i * s + j) = (if resized ! i ! (j + 1) > resized ! i ! j then 1 else 0)"
    if "i < s" "j < s" for i j
  proof -
    have "i * s + j < s * s"
    proof -
      have "i * s + j < i * s + s" using that by simp
      also have "\<dots> = Suc i * s" by simp
      also have "\<dots> \<le> s * s" using that by (metis Suc_leI mult_le_mono1)
      finally show ?thesis .
    qed
    with l have "i * s + j < length (concat (diff_grid resized))" by simp
    then have "?fp ! (i * s + j) = (if concat (diff_grid resized) ! (i * s + j) then 1 else 0)"
      by simp
    also have "concat (diff_grid resized) ! (i * s + j) = diff_grid resized ! i ! j"
      using diff_grid_shape [OF assms(3,4)] that by (intro nth_concat_rows) auto
    finally show ?thesis using diff_grid_nth [OF assms(3,4) that] by simp
  qed
  from d l b n show ?thesis by blast
qed

text \<open>An instance: a resized grid of two rows and three columns.\<close>

definition example_cvtColor :: "nat list list \<Rightarrow> error + nat list list" where
  "example_cvtColor img = Inr img"

definition example_resize :: "nat list list \<Rightarrow> nat \<times> nat \<Rightarrow> error + nat list list" where
  "example_resize gray dsize = Inr [[5, 7, 7], [9, 3, 4]]"

theorem dhash_bits_witness:
  "dhash example_cvtColor example_resize [[0]] 2 = Inr [1, 0, 0, 1]"
proof -
  have "\<exists>fp. dhash example_cvtColor example_resize [[0]] 2 = Inr fp \<and> length fp = 2 * 2 \<and> set fp \<subseteq> {0, 1} \<and>
           (\<forall>i<2. \<forall>j<2. fp ! (i * 2 + j) = (if [[5, 7, 7], [9, 3, 4::nat]] ! i ! (j + 1) > [[5, 7, 7], [9, 3, 4]] ! i ! j then 1 else 0))"
    by (rule dhash_bits [where gray = "[[0]]"]) (simp_all add: example_cvtColor_def example_resize_def)
  then show ?thesis
    by (simp add: dhash_def example_cvtColor_def example_resize_def diff_grid_def)
qed


section \<open>The bands drawn at construction\<close>

lemma choice_ok:
  "choice rng pos [0..<d] k = Inr g \<Longrightarrow> length g = k \<and> (\<forall>p\<in>set g. p < d)"
  by (cases "d = 0") (auto simp: choice_def split: if_splits)

lemma make_projections_ok:
  "make_projections rng pos d k l = Inr ps \<Longrightarrow>
     length ps = l \<and> (\<forall>g\<in>set ps. length g = k \<and> (\<forall>p\<in>set g. p < d))"
proof (induction l arbitrary: pos ps)
  case 0
  then show ?case by simp
next
  case (Suc l)
  from Suc.prems obtain g gs where g: "choice rng pos [0..<d] k = Inr g"
    and gs: "make_projections rng (pos + k) d k l = Inr gs" and ps: "ps = g # gs"
    by (auto split: sum.splits)
  from Suc.IH [OF gs] choice_ok [OF g] ps show ?case by simp
qed

lemma make_projections_returns:
  "0 < d \<or> k = 0 \<Longrightarrow> \<exists>ps. make_projections rng pos d k l = Inr ps"
proof (induction l arbitrary: pos)
  case 0
  then show ?case by simp
next
  case (Suc l)
  from Suc.IH [OF Suc.prems, of "pos + k"] obtain gs where "make_projections rng (pos + k) d k l = Inr gs"
    by blast
  with Suc.prems show ?case by (auto simp: choice_def)
qed

definition constant_rng :: "nat \<Rightarrow> nat" where
  "constant_rng n = 0"

definition example_hash :: "nat list \<Rightarrow> error + fingerprint" where
  "example_hash img = Inr img"

text \<open>
  Claim C5 says that the positions of a band are pairwise distinct. \<open>np.random.choice\<close>
  draws with replacement unless told otherwise, and the constructor does not tell it:
  with \<open>k = 2\<close> and \<open>d = 2\<close>, where two distinct positions exist, a stream of equal
  draws gives the band of position 0 twice.
\<close>

theorem bands_distinct_counterexample:
  "map_sum id projections (LSHDeduplicator_init constant_rng example_hash 2 1 2) = Inr [[0, 0]]
   \<and> \<not> distinct [0, 0 :: nat]"
  by (simp add: LSHDeduplicator_init_def choice_def constant_rng_def numeral_2_eq_2)

text \<open>
  Claim C5, amended. At construction, for every stream of random draws, when \<open>d\<close> is
  positive (or \<open>k\<close> is 0) the constructor returns \<open>l\<close> bands, each of \<open>k\<close> positions
  drawn from \<open>[0, d)\<close> with replacement: every position lies in \<open>[0, d)\<close>, and the
  positions of a band need not be distinct.
\<close>

theorem bands_in_range:
  assumes "0 < d \<or> k = 0"
  shows "\<exists>self. LSHDeduplicator_init rng hf k l d = Inr self \<and> length (projections self) = l \<and>
           (\<forall>g\<in>set (projections self). length g = k \<and> (\<forall>p\<in>set g. p < d))"
proof -
  from make_projections_returns [OF assms] obtain ps where ps: "make_projections rng 0 d k l = Inr ps"
    by blast
  from make_projections_ok [OF ps] ps show ?thesis
    by (simp add: LSHDeduplicator_init_def)
qed

text \<open>The default parameters, \<open>k = 32\<close>, \<open>l = 50\<close>, \<open>d = 64\<close>.\<close>

theorem bands_in_range_witness:
  "\<exists>self. LSHDeduplicator_init constant_rng example_hash 32 50 64 = Inr self \<and> length (projections self) = 50 \<and>
           (\<forall>g\<in>set (projections self). length g = 32 \<and> (\<forall>p\<in>set g. p < 64))"
  using bands_in_range [of 64 32 constant_rng example_hash 50] by simp

section \<open>The distance compared with the threshold\<close>

lemma differing_le: "differing u v \<le> length u"
proof -
  have "differing u v \<le> length (zip u v)"
    unfolding differing_def by (rule length_filter_le)
  then show ?thesis by simp
qed

lemma scaled_count:
  assumes "length u = 64" "length v = 64"
  shows "hamming u v = Inr (Fin (of_nat (differing u v) / 64))"
    and "num_times (Fin (of_nat (differing u v) / 64)) 64 = Fin (of_nat (differing u v))"
proof -
  from differing_le [of u v] assms have c: "differing u v \<le> 64" by simp
  from assms fl_over_64 [OF c] show "hamming u v = Inr (Fin (of_nat (differing u v) / 64))"
    by (auto simp: hamming_def)
  from c have "differing u v < 2 ^ 53" by simp
  from fl_nat [OF this] show "num_times (Fin (of_nat (differing u v) / 64)) 64 = Fin (of_nat (differing u v))"
    by simp
qed

lemma lsh_distance_count:
  assumes "length u = 64" "length v = 64"
  shows "lsh_distance 64 u v = Inr (Fin (of_nat (differing u v)))"
  using scaled_count [OF assms] by (simp add: lsh_distance_def)

lemma bf_distance_count:
  assumes "length u = 64" "length v = 64"
  shows "bf_distance u v = Inr (Fin (of_nat (differing u v)))"
  using scaled_count [OF assms] by (simp add: bf_distance_def)

text \<open>Two fingerprints of 16 bits, as a hash of size 4 gives, that differ in 4 positions.\<close>

definition fp16_a :: fingerprint where
  "fp16_a = [0, 0, 0, 0, 0, 0, 0, 0, 0, 0, 0, 0, 0, 0, 0, 0]"

definition fp16_b :: fingerprint where
  "fp16_b = [1, 1, 1, 1, 0, 0, 0, 0, 0, 0, 0, 0, 0, 0, 0, 0]"

text \<open>
  Claim C6 says that the value compared with the threshold is the number of differing
  positions. The approximate clusterer scales the fraction by its parameter \<open>d\<close> and
  gets 4 on the two fingerprints above when \<open>d = 16\<close>. The exact clusterer scales by the
  constant 64 whatever the length of the fingerprints: it gets 16, which is not below 10,
  and keeps the two images apart.
\<close>

theorem bf_distance_hard_coded:
  "differing fp16_a fp16_b = 4 \<and> bf_distance fp16_a fp16_b = Inr (Fin 16) \<and>
   lsh_distance 16 fp16_a fp16_b = Inr (Fin 4) \<and>
   bf_deduplicate 1000 example_hash [fp16_a, fp16_b] = Inr [[fp16_a], [fp16_b]]"
  by code_simp

section \<open>Example inputs\<close>

text \<open>
  Three fingerprints of 64 bits: the second differs from the first in 6 positions and
  from the third in 6 positions, the first from the third in 12.
\<close>

definition fp64_a :: fingerprint where
  "fp64_a = replicate 64 0"

definition fp64_b :: fingerprint where
  "fp64_b = replicate 6 1 @ replicate 58 0"

definition fp64_c :: fingerprint where
  "fp64_c = replicate 12 1 @ replicate 52 0"

text \<open>
  A stream of draws that gives the positions 12, 13, ..., 63, 12, ..., and a clusterer of
  two bands of four positions built from it.
\<close>

definition example_rng :: "nat \<Rightarrow> nat" where
  "example_rng n = 12 + n mod 52"

definition example_lsh :: "nat list LSHDeduplicator" where
  "example_lsh = projr (LSHDeduplicator_init example_rng example_hash 4 2 64)"


lemma example_lsh:
  "example_lsh = \<lparr>hash_func = example_hash, lsh_k = 4, lsh_l = 2, lsh_d = 64,
      projections = [[12, 13, 14, 15], [16, 17, 18, 19]]\<rparr>"
  by (simp add: example_lsh_def LSHDeduplicator_init_def choice_def example_rng_def
      numeral_2_eq_2 upt_rec [of _ "numeral n" for n])

section \<open>Every image in exactly one group\<close>

text \<open>
  The groups partition the input: they are the images at lists of positions, none of them
  empty, that together hold every position of the input exactly once.
\<close>

definition groups_partition :: "'a list \<Rightarrow> 'a list list \<Rightarrow> bool" where
  "groups_partition imgs groups \<longleftrightarrow>
     (\<exists>xss. groups = map (map (\<lambda>a. imgs ! a)) xss \<and> [] \<notin> set xss \<and>
            distinct (concat xss) \<and> set (concat xss) = {i. i < length imgs})"

lemma nodes_all_nonempty: "nodes_all fuel h roots = Some xss \<Longrightarrow> [] \<notin> set xss"
proof (induction roots arbitrary: xss)
  case Nil
  then show ?case by simp
next
  case (Cons r roots)
  from Cons.prems obtain xs xss' where x: "nodes fuel h r = Some xs"
    and x': "nodes_all fuel h roots = Some xss'" and xss: "xss = xs # xss'"
    by (auto split: option.splits)
  from nodes_hd [OF x] Cons.IH [OF x'] xss show ?case by auto
qed

lemma partition_count:
  assumes "groups_partition imgs groups"
  shows "length (concat groups) = length imgs \<and> [] \<notin> set groups"
proof -
  from assms obtain xss where g: "groups = map (map (\<lambda>a. imgs ! a)) xss" and ne: "[] \<notin> set xss"
    and d: "distinct (concat xss)" and s: "set (concat xss) = {i. i < length imgs}"
    unfolding groups_partition_def by blast
  from g have "concat groups = map (\<lambda>a. imgs ! a) (concat xss)" by (simp add: map_concat)
  then have "length (concat groups) = length (concat xss)" by simp
  also from d s have "\<dots> = length imgs" by (rule distinct_card_length)
  finally have "length (concat groups) = length imgs" .
  moreover from g ne have "[] \<notin> set groups" by auto
  ultimately show ?thesis ..
qed

lemma lsh_result:
  assumes "lsh_deduplicate limit self imgs = Inr groups"
  obtains st xss where "lsh_images self imgs lsh_init = Inr st" "lsh_inv (lsh_d self) st xss"
    "map data (heap st) = imgs" "hashed_by (hash_func self) (heap st)"
    "groups = map (map (\<lambda>a. imgs ! a)) xss"
proof -
  obtain st where run: "lsh_images self imgs lsh_init = Inr st"
  proof (cases "lsh_images self imgs lsh_init")
    case (Inl e)
    with assms show ?thesis by (simp add: lsh_deduplicate_def lsh_init_def)
  next
    case (Inr st)
    with that show ?thesis .
  qed
  from lsh_final [OF run] obtain xss where inv: "lsh_inv (lsh_d self) st xss"
    and dat: "map data (heap st) = imgs" and hb: "hashed_by (hash_func self) (heap st)"
    and res: "\<forall>limit groups. lsh_deduplicate limit self imgs = Inr groups \<longrightarrow>
              groups = map (map (\<lambda>a. imgs ! a)) xss"
    by blast
  from res assms have "groups = map (map (\<lambda>a. imgs ! a)) xss" by blast
  with run inv dat hb that show ?thesis by blast
qed

lemma lsh_partition:
  assumes "lsh_deduplicate limit self imgs = Inr groups"
  shows "groups_partition imgs groups"
proof -
  from assms obtain st xss where "lsh_images self imgs lsh_init = Inr st"
    and inv: "lsh_inv (lsh_d self) st xss" and dat: "map data (heap st) = imgs"
    and "hashed_by (hash_func self) (heap st)" and g: "groups = map (map (\<lambda>a. imgs ! a)) xss"
    by (rule lsh_result)
  from inv have t: "tree_inv (length (heap st)) (heap st) (result st) xss"
    and ms: "mset (concat xss) = mset [0..<length (heap st)]"
    by (simp_all add: lsh_inv_def)
  from dat have lh: "length (heap st) = length imgs" by (metis length_map)
  from t have d: "distinct (concat xss)" and n: "nodes_all (length (heap st)) (heap st) (result st) = Some xss"
    by (simp_all add: tree_inv_def)
  have "set [0..<length imgs] = {i. i < length imgs}" by auto
  with mset_eq_setD [OF ms] lh have s: "set (concat xss) = {i. i < length imgs}"
    by (simp only:)
  show ?thesis
    unfolding groups_partition_def
    by (rule exI [of _ xss]) (intro conjI g nodes_all_nonempty [OF n] d s)
qed

lemma bf_result:
  assumes "bf_deduplicate limit hf imgs = Inr groups"
  obtains h st xss where "hash_all hf imgs [] = Inr h" "bf_while (bf_init h) = Inr st"
    "bf_inv (map hash h) {} {} st xss" "queue st = []" "visited xss = {i. i < length imgs}"
    "map data (heap st) = imgs" "hashed_by hf (heap st)" "groups = map (map (\<lambda>a. imgs ! a)) xss"
proof -
  obtain h where h: "hash_all hf imgs [] = Inr h"
  proof (cases "hash_all hf imgs []")
    case (Inl e)
    with assms show ?thesis by (simp add: bf_deduplicate_def)
  next
    case (Inr h)
    with that show ?thesis .
  qed
  from hash_all_heap [OF h] have "map data h = imgs" by (simp add: hashed_by_def)
  then have lh: "length h = length imgs" by (metis length_map)
  obtain st where run: "bf_while (bf_init h) = Inr st"
  proof (cases "bf_while (bf_init h)")
    case (Inl e)
    with assms h lh show ?thesis by (simp add: bf_deduplicate_def bf_init_def)
  next
    case (Inr st)
    with that show ?thesis .
  qed
  from bf_final [OF h run] obtain xss
    where res: "\<forall>limit groups. bf_deduplicate limit hf imgs = Inr groups \<longrightarrow>
              groups = map (map (\<lambda>a. imgs ! a)) xss"
    and inv: "bf_inv (map hash h) {} {} st xss" and q: "queue st = []"
    and vis: "visited xss = {i. i < length imgs}" and dat: "map data (heap st) = imgs"
    and hb: "hashed_by hf (heap st)"
    by blast
  from res assms have "groups = map (map (\<lambda>a. imgs ! a)) xss" by blast
  with h run inv q vis dat hb that show ?thesis by blast
qed

lemma bf_partition:
  assumes "bf_deduplicate limit hf imgs = Inr groups"
  shows "groups_partition imgs groups"
proof -
  from assms obtain h st xss where "hash_all hf imgs [] = Inr h" "bf_while (bf_init h) = Inr st"
    and inv: "bf_inv (map hash h) {} {} st xss" and "queue st = []"
    and vis: "visited xss = {i. i < length imgs}" and "map data (heap st) = imgs"
    and "hashed_by hf (heap st)" and g: "groups = map (map (\<lambda>a. imgs ! a)) xss"
    by (rule bf_result)
  note t = bf_invD(3) [OF inv]
  from t have d: "distinct (concat xss)" and n: "nodes_all (length (concat xss)) (heap st) (result st) = Some xss"
    by (simp_all add: tree_inv_def)
  from vis have s: "set (concat xss) = {i. i < length imgs}" unfolding visited_def .
  show ?thesis
    unfolding groups_partition_def
    by (rule exI [of _ xss]) (intro conjI g nodes_all_nonempty [OF n] d s)
qed

lemma lsh_returns:
  assumes "\<forall>img\<in>set imgs. \<exists>fp. hash_func self img = Inr fp"
    and "uniform (fingerprints (hash_func self) imgs)"
    and "\<forall>fp\<in>set (fingerprints (hash_func self) imgs). \<forall>g\<in>set (projections self). \<forall>p\<in>set g. p < length fp"
    and "0 < lsh_d self" and "length imgs \<le> limit"
  shows "\<exists>groups. lsh_deduplicate limit self imgs = Inr groups"
proof -
  have "uniform (map hash (heap (lsh_init :: 'a lsh_state)) @ fingerprints (hash_func self) imgs)"
    using assms(2) by (simp add: lsh_init_def)
  from lsh_images_returns [OF lsh_inv_init assms(1) this assms(3,4)] obtain st
    where "lsh_images self imgs lsh_init = Inr st"
    by blast
  from lsh_final [OF this] assms(5) show ?thesis by blast
qed

lemma bf_returns_groups:
  assumes "\<forall>img\<in>set imgs. \<exists>fp. hf img = Inr fp" "uniform (fingerprints hf imgs)"
    and "length imgs \<le> limit"
  shows "\<exists>groups. bf_deduplicate limit hf imgs = Inr groups"
proof -
  from bf_returns [OF assms(1,2)] obtain h st where "hash_all hf imgs [] = Inr h" "bf_while (bf_init h) = Inr st"
    by blast
  from bf_final [OF this] assms(3) show ?thesis by blast
qed

text \<open>
  Claim C2. Whenever \<open>LSHDeduplicator.deduplicate\<close> or
  \<open>BruteForceDeduplicator.deduplicate\<close> returns groups for \<open>n\<close> images, no group is
  empty, the groups hold \<open>n\<close> elements in total, and every position of the input is in
  exactly one group. Both return groups whenever every image has a fingerprint, all
  fingerprints have one length (which, for the approximate clusterer, the positions of
  the bands lie within, with \<open>d\<close> positive) and the interpreter allows \<open>_flatten\<close> a depth
  of \<open>n\<close> calls.
\<close>

theorem grouping_total:
  "(\<forall>groups. lsh_deduplicate limit self imgs = Inr groups \<longrightarrow>
      groups_partition imgs groups \<and> length (concat groups) = length imgs \<and> [] \<notin> set groups) \<and>
   (\<forall>groups. bf_deduplicate limit hf imgs = Inr groups \<longrightarrow>
      groups_partition imgs groups \<and> length (concat groups) = length imgs \<and> [] \<notin> set groups) \<and>
   ((\<forall>img\<in>set imgs. \<exists>fp. hash_func self img = Inr fp) \<and>
    uniform (fingerprints (hash_func self) imgs) \<and>
    (\<forall>fp\<in>set (fingerprints (hash_func self) imgs). \<forall>g\<in>set (projections self). \<forall>p\<in>set g. p < length fp) \<and>
    0 < lsh_d self \<and> length imgs \<le> limit \<longrightarrow>
      (\<exists>groups. lsh_deduplicate limit self imgs = Inr groups)) \<and>
   ((\<forall>img\<in>set imgs. \<exists>fp. hf img = Inr fp) \<and> uniform (fingerprints hf imgs) \<and>
    length imgs \<le> limit \<longrightarrow>
      (\<exists>groups. bf_deduplicate limit hf imgs = Inr groups))"
proof (intro conjI allI impI)
  fix groups
  assume "lsh_deduplicate limit self imgs = Inr groups"
  then have p: "groups_partition imgs groups" by (rule lsh_partition)
  then show "groups_partition imgs groups" .
  from partition_count [OF p] show "length (concat groups) = length imgs" "[] \<notin> set groups"
    by simp_all
next
  fix groups
  assume "bf_deduplicate limit hf imgs = Inr groups"
  then have p: "groups_partition imgs groups" by (rule bf_partition)
  then show "groups_partition imgs groups" .
  from partition_count [OF p] show "length (concat groups) = length imgs" "[] \<notin> set groups"
    by simp_all
next
  assume "(\<forall>img\<in>set imgs. \<exists>fp. hash_func self img = Inr fp) \<and>
    uniform (fingerprints (hash_func self) imgs) \<and>
    (\<forall>fp\<in>set (fingerprints (hash_func self) imgs). \<forall>g\<in>set (projections self). \<forall>p\<in>set g. p < length fp) \<and>
    0 < lsh_d self \<and> length imgs \<le> limit"
  then show "\<exists>groups. lsh_deduplicate limit self imgs = Inr groups"
    using lsh_returns [of imgs self limit] by blast
next
  assume "(\<forall>img\<in>set imgs. \<exists>fp. hf img = Inr fp) \<and> uniform (fingerprints hf imgs) \<and>
    length imgs \<le> limit"
  then show "\<exists>groups. bf_deduplicate limit hf imgs = Inr groups"
    using bf_returns_groups [of imgs hf limit] by blast
qed

end
